theory Spec2Isabelle
  imports
    Complex_Main
    "HOL-Library.Char_ord"
    "HOL-Library.List_Lexorder"
    "HOL-Library.AList"
    "HOL-Library.Multiset"
begin

section \<open>JavaScript values and errors\<close>

text \<open>
  The values that cross the components' interfaces and that \<open>JSON.parse\<close> can return:
  \<open>undefined\<close>, \<open>null\<close>, booleans, numbers, strings, arrays and plain objects (an
  association list in key order). Numbers in these values are the integers (timestamps,
  counters, numeric ids); a fractional number is not represented. An exception is a
  value of \<open>js_error\<close>, and a function that can throw returns a sum with the error on
  the left.
\<close>

datatype jsval =
    JUndefined
  | JNull
  | JBool bool
  | JNum int
  | JStr string
  | JArr "jsval list"
  | JObj "(string \<times> jsval) list"

datatype js_error = Error string | TypeError

text \<open>Truthiness (\<open>!v\<close> is its negation).\<close>

fun truthy :: "jsval \<Rightarrow> bool" where
  "truthy JUndefined = False"
| "truthy JNull = False"
| "truthy (JBool b) = b"
| "truthy (JNum n) = (n \<noteq> 0)"
| "truthy (JStr s) = (s \<noteq> [])"
| "truthy (JArr xs) = True"
| "truthy (JObj kvs) = True"

text \<open>
  A property read \<open>v.k\<close> on a value that is neither \<open>null\<close> nor \<open>undefined\<close>: the entry
  of an object, and \<open>undefined\<close> for a missing key and for the booleans, numbers,
  strings and arrays that the model holds (\<open>k\<close> is never \<open>length\<close> or an index here).
  A read on \<open>null\<close> or \<open>undefined\<close> throws a TypeError; callers that can reach it use
  \<open>prop_read\<close>.
\<close>

fun prop_get :: "jsval \<Rightarrow> string \<Rightarrow> jsval" where
  "prop_get (JObj kvs) k = (case map_of kvs k of Some v \<Rightarrow> v | None \<Rightarrow> JUndefined)"
| "prop_get v k = JUndefined"

fun prop_read :: "jsval \<Rightarrow> string \<Rightarrow> js_error + jsval" where
  "prop_read JUndefined k = Inl TypeError"
| "prop_read JNull k = Inl TypeError"
| "prop_read v k = Inr (prop_get v k)"

fun is_primitive :: "jsval \<Rightarrow> bool" where
  "is_primitive (JArr xs) = False"
| "is_primitive (JObj kvs) = False"
| "is_primitive v = True"

text \<open>Decimal digits of a natural number, as a template literal prints it.\<close>

definition digit_char :: "nat \<Rightarrow> char" where
  "digit_char d = ''0123456789'' ! d"

function dec :: "nat \<Rightarrow> string" where
  "dec n = (if n < 10 then [digit_char n] else dec (n div 10) @ [digit_char (n mod 10)])"
  by pat_completeness auto
termination
  by (relation "measure id") auto

declare dec.simps [simp del]

text \<open>
  String conversion of a value inside a template literal (\<open>`${v}`\<close>): a string is
  itself, a number its decimal digits (integers below \<open>10^21\<close> print so), an array
  the comma-joined conversion of its elements (\<open>null\<close> and \<open>undefined\<close> elements
  print as nothing), a plain object \<open>[object Object]\<close>.
\<close>

fun join_comma :: "string list \<Rightarrow> string" where
  "join_comma [] = []"
| "join_comma [s] = s"
| "join_comma (s # t # ss) = s @ '','' @ join_comma (t # ss)"

fun to_string :: "jsval \<Rightarrow> string"
  and elem_string :: "jsval \<Rightarrow> string" where
  "to_string JUndefined = ''undefined''"
| "to_string JNull = ''null''"
| "to_string (JBool b) = (if b then ''true'' else ''false'')"
| "to_string (JNum n) = (if n < 0 then ''-'' @ dec (nat (- n)) else dec (nat n))"
| "to_string (JStr s) = s"
| "to_string (JArr xs) = join_comma (map elem_string xs)"
| "to_string (JObj kvs) = ''[object Object]''"
| "elem_string JUndefined = []"
| "elem_string JNull = []"
| "elem_string v = to_string v"

section \<open>JavaScript numbers (IEEE 754 binary64)\<close>

text \<open>
  A JavaScript number is a binary64 value: a finite number \<open>m * 2^k\<close> with an integer
  \<open>\<bar>m\<bar> < 2^53\<close> and \<open>-1074 \<le> k \<le> 971\<close>, \<open>+Infinity\<close>, \<open>-Infinity\<close> or \<open>NaN\<close>. A finite
  value is held as the real number it denotes; the sign of zero is not represented (no
  operation modelled here tells \<open>-0\<close> from \<open>+0\<close> except a division by zero, which takes
  the divisor as \<open>+0\<close>).
\<close>

datatype double = Fin real | PInf | NInf | NaN

text \<open>
  \<open>pow2 k\<close> is \<open>2^k\<close> for an integer \<open>k\<close>. \<open>expo x\<close> is the exponent of the binade
  of \<open>x\<close>: the greatest \<open>e\<close> between \<open>-1022\<close> and \<open>1023\<close> with \<open>2^e \<le> \<bar>x\<bar>\<close>, and
  \<open>-1022\<close> below that (the subnormal range), found by counting up from \<open>-1022\<close>.
\<close>

definition pow2 :: "int \<Rightarrow> real" where
  "pow2 k = (if 0 \<le> k then 2 ^ nat k else 1 / 2 ^ nat (- k))"

fun binade :: "nat \<Rightarrow> int \<Rightarrow> real \<Rightarrow> int" where
  "binade 0 e x = e"
| "binade (Suc n) e x = (if pow2 (e + 1) \<le> x then binade n (e + 1) x else e)"

definition expo :: "real \<Rightarrow> int" where
  "expo x = binade 2045 (- 1022) \<bar>x\<bar>"

text \<open>
  Rounding to nearest, ties to even: \<open>rne\<close> on the integers, \<open>nearest\<close> on the grid of
  the binade of \<open>x\<close>, whose spacing \<open>quantum x\<close> is \<open>2^(e-52)\<close>. \<open>rnd64\<close> is the result
  of an arithmetic operation whose exact value is \<open>x\<close>: the nearest value of the format,
  and an infinity when that is \<open>2^1024\<close> or beyond.
\<close>

definition rne :: "real \<Rightarrow> int" where
  "rne y = (let n = \<lfloor>y\<rfloor>; d = y - of_int n
            in if d < 1 / 2 then n else if 1 / 2 < d then n + 1
               else if even n then n else n + 1)"

definition quantum :: "real \<Rightarrow> real" where
  "quantum x = pow2 (expo x - 52)"

definition nearest :: "real \<Rightarrow> real" where
  "nearest x = of_int (rne (x / quantum x)) * quantum x"

definition rnd64 :: "real \<Rightarrow> double" where
  "rnd64 x = (let y = nearest x
              in if pow2 1024 \<le> y then PInf else if y \<le> - pow2 1024 then NInf else Fin y)"

text \<open>
  The operators \<open>-x\<close>, \<open>x + y\<close>, \<open>x - y\<close>, \<open>x * y\<close>, \<open>x / y\<close> with their results on
  infinities and NaN. A decimal literal of the source denotes the value nearest to it,
  \<open>rnd64\<close> of the decimal.
\<close>

definition fneg :: "double \<Rightarrow> double" where
  "fneg d = (case d of Fin x \<Rightarrow> Fin (- x) | PInf \<Rightarrow> NInf | NInf \<Rightarrow> PInf | NaN \<Rightarrow> NaN)"

fun fadd :: "double \<Rightarrow> double \<Rightarrow> double" where
  "fadd (Fin x) (Fin y) = rnd64 (x + y)"
| "fadd NaN d = NaN"
| "fadd d NaN = NaN"
| "fadd PInf NInf = NaN"
| "fadd NInf PInf = NaN"
| "fadd PInf d = PInf"
| "fadd d PInf = PInf"
| "fadd NInf d = NInf"
| "fadd d NInf = NInf"

definition fsub :: "double \<Rightarrow> double \<Rightarrow> double" where
  "fsub a b = fadd a (fneg b)"

fun fmul :: "double \<Rightarrow> double \<Rightarrow> double" where
  "fmul (Fin x) (Fin y) = rnd64 (x * y)"
| "fmul NaN d = NaN"
| "fmul d NaN = NaN"
| "fmul (Fin x) PInf = (if x = 0 then NaN else if 0 < x then PInf else NInf)"
| "fmul (Fin x) NInf = (if x = 0 then NaN else if 0 < x then NInf else PInf)"
| "fmul PInf (Fin y) = (if y = 0 then NaN else if 0 < y then PInf else NInf)"
| "fmul NInf (Fin y) = (if y = 0 then NaN else if 0 < y then NInf else PInf)"
| "fmul PInf PInf = PInf"
| "fmul NInf NInf = PInf"
| "fmul PInf NInf = NInf"
| "fmul NInf PInf = NInf"

fun fdiv :: "double \<Rightarrow> double \<Rightarrow> double" where
  "fdiv (Fin x) (Fin y) =
     (if y = 0 then (if x = 0 then NaN else if 0 < x then PInf else NInf)
      else rnd64 (x / y))"
| "fdiv NaN d = NaN"
| "fdiv d NaN = NaN"
| "fdiv (Fin x) PInf = Fin 0"
| "fdiv (Fin x) NInf = Fin 0"
| "fdiv PInf (Fin y) = (if 0 \<le> y then PInf else NInf)"
| "fdiv NInf (Fin y) = (if 0 \<le> y then NInf else PInf)"
| "fdiv d e = NaN"

text \<open>
  The comparison \<open>a <= b\<close> (false when either side is NaN), \<open>a < b\<close>, the test \<open>d > 0\<close>,
  and \<open>Math.max(a, b)\<close>.
\<close>

fun dle :: "double \<Rightarrow> double \<Rightarrow> bool" where
  "dle (Fin x) (Fin y) = (x \<le> y)"
| "dle NaN d = False"
| "dle d NaN = False"
| "dle NInf d = True"
| "dle d PInf = True"
| "dle d e = False"

definition dless :: "double \<Rightarrow> double \<Rightarrow> bool" where
  "dless a b = (dle a b \<and> \<not> dle b a)"

definition positive :: "double \<Rightarrow> bool" where
  "positive d = (case d of Fin x \<Rightarrow> 0 < x | PInf \<Rightarrow> True | NInf \<Rightarrow> False | NaN \<Rightarrow> False)"

definition fmax :: "double \<Rightarrow> double \<Rightarrow> double" where
  "fmax a b = (if a = NaN \<or> b = NaN then NaN else if dle a b then b else a)"

text \<open>The real number held by a finite value (\<open>0\<close> for the others).\<close>

definition fin_val :: "double \<Rightarrow> real" where
  "fin_val d = (case d of Fin x \<Rightarrow> x | PInf \<Rightarrow> 0 | NInf \<Rightarrow> 0 | NaN \<Rightarrow> 0)"

text \<open>
  \<open>Math.exp\<close> and \<open>Math.log\<close>. ECMAScript fixes their results at the special arguments
  and leaves the others to the implementation (an approximation of the mathematical
  function), so that part is a parameter: \<open>math_exp x\<close> and \<open>math_log x\<close> are the
  results at a finite non-zero \<open>x\<close>, respectively at a finite \<open>x > 0\<close> other than \<open>1\<close>.
\<close>

record mathlib =
  math_exp :: "real \<Rightarrow> double"
  math_log :: "real \<Rightarrow> double"

definition js_exp :: "mathlib \<Rightarrow> double \<Rightarrow> double" where
  "js_exp M d =
     (case d of
        NaN \<Rightarrow> NaN
      | PInf \<Rightarrow> PInf
      | NInf \<Rightarrow> Fin 0
      | Fin x \<Rightarrow> if x = 0 then Fin 1 else math_exp M x)"

definition js_log :: "mathlib \<Rightarrow> double \<Rightarrow> double" where
  "js_log M d =
     (case d of
        NaN \<Rightarrow> NaN
      | PInf \<Rightarrow> PInf
      | NInf \<Rightarrow> NaN
      | Fin x \<Rightarrow> if x < 0 then NaN else if x = 0 then NInf
                 else if x = 1 then Fin 0 else math_log M x)"

text \<open>
  What the statements about the temporal factor take from the library. \<open>LN2\<close> is the
  value of the format nearest to \<open>ln 2\<close>, \<open>0.6931471805599453\<close>. A faithful \<open>Math.exp\<close>
  returns one of the two values of the format that enclose the exact exponential (an
  error below one unit in the last place): whatever bounds of the format hold for the
  exact value hold for the result.
\<close>

definition LN2 :: real where
  "LN2 = 6243314768165359 / 2 ^ 53"

definition exp_faithful :: "mathlib \<Rightarrow> bool" where
  "exp_faithful M =
     ((\<forall>x a. rnd64 a = Fin a \<and> a \<le> exp x \<longrightarrow> dle (Fin a) (math_exp M x))
      \<and> (\<forall>x b. rnd64 b = Fin b \<and> exp x \<le> b \<longrightarrow> dle (math_exp M x) (Fin b)))"

definition exp_monotone :: "mathlib \<Rightarrow> bool" where
  "exp_monotone M = (\<forall>x y. x \<le> y \<longrightarrow> dle (math_exp M x) (math_exp M y))"

definition math_contract :: "mathlib \<Rightarrow> bool" where
  "math_contract M = (exp_faithful M \<and> exp_monotone M \<and> math_log M 2 = Fin LN2)"

section \<open>Momentum Engine (MomentumEngine.js)\<close>

text \<open>
  The temporal factor is computed in binary64, operation by operation as the source
  writes it. The clamp of \<open>_combineFactors\<close> and the confidence factor are read over the
  real numbers that the values denote, without rounding. A number held in a record
  below is finite.

  \<open>this.config\<close> of the engine holds \<open>halfLife\<close>, \<open>minMomentum\<close>, \<open>maxHistory\<close> and
  the weight table \<open>factors\<close>. A momentum vector's \<open>factors\<close> object has the same five
  fields as the weight table, so one record serves for both.
\<close>

record factor_vec =
  temporal :: real
  semantic :: real
  operational :: real
  depth :: real
  confidence :: real

record engine_config =
  halfLife :: real
  minMomentum :: real
  maxHistory :: nat
  factors :: factor_vec

text \<open>
  The constructor's defaults: \<open>config.halfLife || 30000\<close>, \<open>config.minMomentum || 0.1\<close>,
  \<open>config.maxHistory || 1000\<close> and the five default weights.
\<close>

definition default_weights :: factor_vec where
  "default_weights =
     \<lparr>temporal = 25 / 100, semantic = 30 / 100, operational = 20 / 100,
      depth = 15 / 100, confidence = 10 / 100\<rparr>"

definition default_engine_config :: engine_config where
  "default_engine_config =
     \<lparr>halfLife = 30000, minMomentum = 1 / 10, maxHistory = 1000,
      factors = default_weights\<rparr>"

text \<open>
  The part of a Context object the engine's temporal and confidence factors read:
  \<open>lastAccess\<close>, \<open>accessCount\<close>, and the numeric entries of the open mapping \<open>state\<close>
  (a key that is absent reads as \<open>undefined\<close>, here \<open>None\<close>).
\<close>

record Context =
  lastAccess :: real
  accessCount :: real
  state :: "string \<rightharpoonup> real"

text \<open>
  Truthiness of a property read that is \<open>undefined\<close> or a number: \<open>undefined\<close> and \<open>0\<close>
  are falsy. \<open>a || b\<close> yields \<open>a\<close> when \<open>a\<close> is truthy and \<open>b\<close> otherwise.
\<close>

definition truthy_num :: "real option \<Rightarrow> bool" where
  "truthy_num v = (case v of None \<Rightarrow> False | Some x \<Rightarrow> x \<noteq> 0)"

definition js_or :: "real option \<Rightarrow> real option \<Rightarrow> real option" where
  "js_or a b = (if truthy_num a then a else b)"

text \<open>
  \<open>_calculateTemporalMomentum(context)\<close>; \<open>now\<close> is the value of \<open>Date.now()\<close>. The
  unary minus of \<open>-decayConstant * timeSinceAccess\<close> binds first.
\<close>

definition calculateTemporalMomentum ::
  "mathlib \<Rightarrow> engine_config \<Rightarrow> real \<Rightarrow> Context \<Rightarrow> double" where
  "calculateTemporalMomentum M cfg now c =
     (let timeSinceAccess = fsub (Fin now) (Fin (lastAccess c));
          decayConstant = fdiv (js_log M (Fin 2)) (Fin (halfLife cfg));
          momentum = js_exp M (fmul (fneg decayConstant) timeSinceAccess)
      in fmax (Fin (minMomentum cfg)) momentum)"

text \<open>
  \<open>_calculateConfidenceMomentum(context)\<close>. The guard is the source's truthiness test
  \<open>!state.confidence && !state.certainty\<close>; the value used is
  \<open>state.confidence || state.certainty || 0.5\<close>.
\<close>

definition calculateConfidenceMomentum :: "Context \<Rightarrow> real" where
  "calculateConfidenceMomentum c =
     (if \<not> truthy_num (state c ''confidence'') \<and> \<not> truthy_num (state c ''certainty'')
      then 5 / 10
      else
        (let conf = (case js_or (js_or (state c ''confidence'') (state c ''certainty''))
                               (Some (5 / 10)) of
                       Some x \<Rightarrow> x | None \<Rightarrow> 5 / 10);
             accessBonus = min (3 / 10) (accessCount c * (5 / 100))
         in min 1 (conf + accessBonus)))"


section \<open>Housekeeper (AIHousekeeper.js)\<close>

text \<open>
  The eight factor heuristics (\<open>_scoreRelevance\<close>, \<dots>, \<open>_scoreEvidence\<close>) are pattern
  matches of the JavaScript regular-expression engine over the answer and the question.
  On strings each of them returns a number and none throws. What \<open>filterAnswers\<close>
  does with their results does not depend on how they are computed, so they are taken
  as parameters: a factor is the finite number the heuristic returns, and the statements
  below hold for all eight functions whose values lie in \<open>[0,1]\<close>, as the values of the
  source's heuristics do. The overall score is computed from the factors in binary64.

  Field names: the score object's \<open>structure\<close>, \<open>confidence\<close> and \<open>context\<close> factors are
  named \<open>structureScore\<close>, \<open>confidenceMarkers\<close> and \<open>contextAlignment\<close> here (after the
  functions that compute them), its \<open>factors\<close> field \<open>score_factors\<close>, and the
  result's \<open>confidence\<close> field \<open>result_confidence\<close>.
\<close>

record heuristics =
  scoreRelevance :: "string \<Rightarrow> string \<Rightarrow> real"
  scoreCompleteness :: "string \<Rightarrow> real"
  scoreStructure :: "string \<Rightarrow> real"
  scoreConfidenceMarkers :: "string \<Rightarrow> real"
  scoreContradictions :: "string \<Rightarrow> real"
  scoreContextAlignment :: "string \<Rightarrow> string \<Rightarrow> real"
  scoreSpecificity :: "string \<Rightarrow> real"
  scoreEvidence :: "string \<Rightarrow> real"

record answer_factors =
  relevance :: real
  completeness :: real
  structureScore :: real
  confidenceMarkers :: real
  contradiction :: real
  contextAlignment :: real
  specificity :: real
  evidence :: real

record answer_score =
  overall :: double
  score_factors :: answer_factors

record filter_result =
  answer :: string
  score :: answer_score
  result_confidence :: double

record filter_log =
  timestamp :: nat
  question :: string
  candidateCount :: nat
  bestScore :: double
  rejected :: nat

record housekeeper =
  filterHistory :: "filter_log list"

text \<open>
  \<open>_scoreAnswer(answer, question)\<close>: the eight factors and their weighted sum, the
  products and the running sum each rounded, from left to right.
\<close>

definition scoreAnswer :: "heuristics \<Rightarrow> string \<Rightarrow> string \<Rightarrow> answer_score" where
  "scoreAnswer H a q =
     (let fs = \<lparr>relevance = scoreRelevance H a q,
                 completeness = scoreCompleteness H a,
                 structureScore = scoreStructure H a,
                 confidenceMarkers = scoreConfidenceMarkers H a,
                 contradiction = scoreContradictions H a,
                 contextAlignment = scoreContextAlignment H a q,
                 specificity = scoreSpecificity H a,
                 evidence = scoreEvidence H a\<rparr>;
          ov = fadd (fadd (fadd (fadd (fadd (fadd (fadd
                 (fmul (Fin (relevance fs)) (rnd64 (25 / 100)))
                 (fmul (Fin (completeness fs)) (rnd64 (15 / 100))))
                 (fmul (Fin (structureScore fs)) (rnd64 (12 / 100))))
                 (fmul (Fin (confidenceMarkers fs)) (rnd64 (15 / 100))))
                 (fmul (Fin (contradiction fs)) (rnd64 (10 / 100))))
                 (fmul (Fin (contextAlignment fs)) (rnd64 (10 / 100))))
                 (fmul (Fin (specificity fs)) (rnd64 (8 / 100))))
                 (fmul (Fin (evidence fs)) (rnd64 (5 / 100)))
      in \<lparr>overall = ov, score_factors = fs\<rparr>)"

text \<open>\<open>_calculateConfidence(score)\<close>.\<close>

definition calculateConfidence :: "answer_score \<Rightarrow> double" where
  "calculateConfidence s = overall s"

text \<open>
  The candidates as strings, when every element is one; \<open>None\<close> when some element is
  not a string (scoring it calls \<open>answer.toLowerCase()\<close>, a TypeError).
\<close>

fun strings_of :: "jsval list \<Rightarrow> string list option" where
  "strings_of [] = Some []"
| "strings_of (JStr s # vs) = map_option ((#) s) (strings_of vs)"
| "strings_of (v # vs) = None"

text \<open>
  \<open>Array.prototype.sort\<close> with a comparator \<open>cmp\<close>: the sort is stable, and \<open>x\<close> is
  moved behind \<open>y\<close> only when \<open>cmp(x, y) > 0\<close>. For a consistent comparator every stable
  sort gives the same array, computed here by insertion from the right. (For an
  inconsistent one the order is left to the implementation; the comparator of
  \<open>filterAnswers\<close> is consistent on finite scores.)
\<close>

fun insort_by :: "('a \<Rightarrow> 'a \<Rightarrow> double) \<Rightarrow> 'a \<Rightarrow> 'a list \<Rightarrow> 'a list" where
  "insort_by cmp x [] = [x]"
| "insort_by cmp x (y # ys) =
     (if positive (cmp x y) then y # insort_by cmp x ys else x # y # ys)"

definition sort_by :: "('a \<Rightarrow> 'a \<Rightarrow> double) \<Rightarrow> 'a list \<Rightarrow> 'a list" where
  "sort_by cmp xs = foldr (insort_by cmp) xs []"

text \<open>
  \<open>filterAnswers(candidates, question)\<close>. \<open>candidates\<close> is any value, \<open>now\<close> the value
  of \<open>Date.now()\<close>. The comparator is \<open>(a, b) => b.score.overall - a.score.overall\<close>.
  The log entry is pushed after scoring and sorting, so an exception leaves
  \<open>filterHistory\<close> as it was.
\<close>

definition filterAnswers ::
  "heuristics \<Rightarrow> nat \<Rightarrow> jsval \<Rightarrow> string \<Rightarrow> housekeeper
     \<Rightarrow> (js_error + filter_result) \<times> housekeeper" where
  "filterAnswers H now candidates q hk =
     (case candidates of
        JArr cs \<Rightarrow>
          (if cs = [] then (Inl (Error ''Candidates must be a non-empty array''), hk)
           else
             (case strings_of cs of
                None \<Rightarrow> (Inl TypeError, hk)
              | Some answers \<Rightarrow>
                  (let scored = map (\<lambda>a. (a, scoreAnswer H a q)) answers;
                       sorted = sort_by (\<lambda>a b. fsub (overall (snd b)) (overall (snd a))) scored;
                       best = hd sorted;
                       entry = \<lparr>timestamp = now, question = q,
                                candidateCount = length cs,
                                bestScore = overall (snd best),
                                rejected = length (tl sorted)\<rparr>
                   in (Inr \<lparr>answer = fst best, score = snd best,
                            result_confidence = calculateConfidence (snd best)\<rparr>,
                       hk\<lparr>filterHistory := filterHistory hk @ [entry]\<rparr>))))
      | _ \<Rightarrow> (Inl (Error ''Candidates must be a non-empty array''), hk))"

text \<open>
  A factor in \<open>[0,1]\<close> that is a value of the format, and an answer all of whose eight
  factors are. \<open>good_score\<close> is what the overall score of such an answer is: a finite
  value of the format between \<open>0\<close> and \<open>8\<close>.
\<close>

definition unit_double :: "real \<Rightarrow> bool" where
  "unit_double x = (rnd64 x = Fin x \<and> 0 \<le> x \<and> x \<le> 1)"

definition unit_scores :: "heuristics \<Rightarrow> string \<Rightarrow> string \<Rightarrow> bool" where
  "unit_scores H a q =
     (unit_double (scoreRelevance H a q) \<and> unit_double (scoreCompleteness H a)
      \<and> unit_double (scoreStructure H a) \<and> unit_double (scoreConfidenceMarkers H a)
      \<and> unit_double (scoreContradictions H a) \<and> unit_double (scoreContextAlignment H a q)
      \<and> unit_double (scoreSpecificity H a) \<and> unit_double (scoreEvidence H a))"

definition good_score :: "double \<Rightarrow> bool" where
  "good_score d = (\<exists>v. d = Fin v \<and> rnd64 v = Fin v \<and> 0 \<le> v \<and> v \<le> 8)"

section \<open>Bridge (ContextBridge.js)\<close>

text \<open>
  The bridge's state: the platform table (own properties of \<open>this.platforms\<close>),
  \<open>activeContext\<close> (\<open>null\<close> is \<open>None\<close>) and the append-only \<open>contextHistory\<close>. A name
  that is not in the table reads as \<open>undefined\<close>, and so does \<open>.connected\<close> on a
  property inherited from \<open>Object.prototype\<close>; both are \<open>None\<close> here.
  A history entry's \<open>from\<close> and \<open>to\<close> are \<open>h_from\<close> and \<open>h_to\<close>.
\<close>

record platform_entry =
  name :: string
  connected :: bool
  contextId :: "string option"

record history_entry =
  h_timestamp :: string
  h_from :: "string option"
  h_to :: string
  transferred :: bool

record bridge =
  platforms :: "string \<rightharpoonup> platform_entry"
  activeContext :: "string option"
  contextHistory :: "history_entry list"

record switch_result =
  success :: bool
  platform :: string
  previousContext :: "string option"
  result_contextId :: "string option"

text \<open>The constructor: four known platforms, none connected.\<close>

definition ContextBridge_new :: bridge where
  "ContextBridge_new =
     \<lparr>platforms =
        [''chatgpt'' \<mapsto> \<lparr>name = ''ChatGPT'', connected = False, contextId = None\<rparr>,
         ''claude'' \<mapsto> \<lparr>name = ''Claude'', connected = False, contextId = None\<rparr>,
         ''perplexity'' \<mapsto> \<lparr>name = ''Perplexity'', connected = False, contextId = None\<rparr>,
         ''gemini'' \<mapsto> \<lparr>name = ''Gemini'', connected = False, contextId = None\<rparr>],
      activeContext = None,
      contextHistory = []\<rparr>"

text \<open>
  \<open>this.platforms[platform]?.connected\<close> as a truth value.
\<close>

definition is_connected :: "bridge \<Rightarrow> string \<Rightarrow> bool" where
  "is_connected b p = (case platforms b p of None \<Rightarrow> False | Some e \<Rightarrow> connected e)"

text \<open>
  \<open>switchContext(platform, transferContext)\<close>. The function is \<open>async\<close>: a \<open>throw\<close> in
  its body rejects the returned promise, and the result here is what the promise settles
  to (\<open>Inl\<close> the rejection). \<open>_transferContextData\<close> only logs and waits, so the
  transfer branch changes nothing. \<open>ts\<close> is \<open>new Date().toISOString()\<close>.
\<close>

definition switchContext ::
  "bridge \<Rightarrow> string \<Rightarrow> string \<Rightarrow> bool \<Rightarrow> (js_error + switch_result) \<times> bridge" where
  "switchContext b ts p transferContext =
     (if \<not> is_connected b p
      then (Inl (Error (''Platform '' @ p @ '' is not connected'')), b)
      else
        (let prev = activeContext b;
             b' = b\<lparr>activeContext := Some p,
                    contextHistory := contextHistory b @
                      [\<lparr>h_timestamp = ts, h_from = prev, h_to = p,
                        transferred = transferContext\<rparr>]\<rparr>
         in (Inr \<lparr>success = True, platform = p, previousContext = prev,
                  result_contextId =
                    (case platforms b p of None \<Rightarrow> None | Some e \<Rightarrow> contextId e)\<rparr>,
             b')))"

section \<open>Vault (StateVault.js)\<close>

subsection \<open>The Node.js runtime the Vault calls\<close>

text \<open>
  The Vault calls into the runtime for JSON (\<open>JSON.stringify\<close>, \<open>JSON.parse\<close>), for
  AES-256-GCM (\<open>crypto.createCipheriv\<close> / \<open>createDecipheriv\<close> with their \<open>update\<close>,
  \<open>final\<close>, \<open>getAuthTag\<close>, \<open>setAuthTag\<close> calls) and for directory listings
  (\<open>fs.readdirSync\<close>, whose order Node.js leaves to the operating system). None of
  these is code of the repository, so they are parameters of the model:

  \<^item> \<open>json_stringify v\<close> is the text of a value, \<open>json_parse s\<close> the parsed value, or
    \<open>None\<close> where \<open>JSON.parse\<close> throws a SyntaxError;
  \<^item> \<open>gcm_encrypt key iv data\<close> is the cipher run of \<open>_encrypt\<close> (key and iv as hex
    strings, the result the hex ciphertext and the hex authentication tag), \<open>None\<close>
    where a call of the run throws (a key of the wrong length);
  \<^item> \<open>gcm_decrypt key iv authTag encrypted\<close> is the decipher run of \<open>_decrypt\<close> on the
    three fields read from the envelope (any values: a field may be missing), \<open>None\<close>
    where a call of the run throws (a malformed field, a failed authentication);
  \<^item> \<open>readdir_order names\<close> is the order in which a listing returns the names of a
    directory.
\<close>

record runtime =
  json_stringify :: "jsval \<Rightarrow> string"
  json_parse :: "string \<Rightarrow> jsval option"
  gcm_encrypt :: "string \<Rightarrow> string \<Rightarrow> string \<Rightarrow> (string \<times> string) option"
  gcm_decrypt :: "string \<Rightarrow> jsval \<Rightarrow> jsval \<Rightarrow> jsval \<Rightarrow> string option"
  readdir_order :: "string list \<Rightarrow> string list"

subsection \<open>Files\<close>

text \<open>
  A directory is an association list from file name to content, with each name once.
  \<open>writeFileSync\<close> replaces the content of an existing name or adds the name,
  \<open>unlinkSync\<close> removes it, \<open>existsSync\<close>/\<open>readFileSync\<close> look it up. The storage
  directory holds the \<open>.ctx\<close> units and its \<open>backups\<close> subdirectory the snapshots. File
  operations succeed in the model: the \<open>catch\<close> branches that only an I/O error can
  reach are not represented. File names are used as written (\<open>path.join\<close> does not
  normalise them here). Each function is followed along its Node.js branch (\<open>fs\<close> is
  defined); the \<open>localStorage\<close> branch of a browser is not represented.
\<close>

type_synonym dir = "(string \<times> string) list"

record disk =
  ctx_dir :: dir
  backup_dir :: dir

definition writeFileSync :: "dir \<Rightarrow> string \<Rightarrow> string \<Rightarrow> dir" where
  "writeFileSync d f content = AList.update f content d"

definition unlinkSync :: "dir \<Rightarrow> string \<Rightarrow> dir" where
  "unlinkSync d f = AList.delete f d"

definition readdirSync :: "runtime \<Rightarrow> dir \<Rightarrow> string list" where
  "readdirSync R d = readdir_order R (map fst d)"

definition endsWith :: "string \<Rightarrow> string \<Rightarrow> bool" where
  "endsWith s suf = (length suf \<le> length s \<and> drop (length s - length suf) s = suf)"

subsection \<open>The Vault's state\<close>

text \<open>
  \<open>this.contexts\<close> is a \<open>Map\<close>: an association list in insertion order, \<open>set\<close> replacing
  the value of a key in place or appending the key. Keys are compared as values, which
  is the \<open>Map\<close>'s comparison for strings, numbers and booleans. \<open>backupTimer\<close> is \<open>True\<close>
  while a timer handle is held and \<open>False\<close> for \<open>null\<close>; the ticks of the timer are not
  modelled. \<open>maxBackups\<close> is whatever number the configuration gives.
\<close>

record vault_config =
  storagePath :: string
  encryptionEnabled :: bool
  encryptionKey :: string
  backupEnabled :: bool
  backupInterval :: nat
  maxBackups :: int

record vault =
  config :: vault_config
  contexts :: "(jsval \<times> jsval) list"
  backupTimer :: bool
  memoryOnly :: bool

text \<open>
  The constructor for a resolved configuration; \<open>storage_ok\<close> tells whether
  \<open>_initStorage\<close> went through (otherwise the Vault is memory-only). The timer is
  started whenever backups are enabled.
\<close>

definition StateVault_new :: "vault_config \<Rightarrow> bool \<Rightarrow> vault" where
  "StateVault_new cfg storage_ok =
     \<lparr>config = cfg, contexts = [], backupTimer = backupEnabled cfg,
      memoryOnly = (\<not> storage_ok)\<rparr>"

subsection \<open>Encryption\<close>

text \<open>The envelope object \<open>{encrypted, iv, authTag}\<close>.\<close>

definition envelope :: "string \<Rightarrow> string \<Rightarrow> string \<Rightarrow> jsval" where
  "envelope encrypted iv authTag =
     JObj [(''encrypted'', JStr encrypted), (''iv'', JStr iv), (''authTag'', JStr authTag)]"

text \<open>
  \<open>_encrypt(data)\<close>; \<open>iv\<close> is the hex form of \<open>crypto.randomBytes(16)\<close>. When the cipher
  throws, the \<open>catch\<close> returns the data unencrypted.
\<close>

definition encrypt :: "runtime \<Rightarrow> vault_config \<Rightarrow> string \<Rightarrow> string \<Rightarrow> string" where
  "encrypt R cfg iv data =
     (case gcm_encrypt R (encryptionKey cfg) iv data of
        Some (encrypted, authTag) \<Rightarrow> json_stringify R (envelope encrypted iv authTag)
      | None \<Rightarrow> data)"

text \<open>
  The body of \<open>_decrypt\<close> after \<open>JSON.parse\<close>, on the parsed value: the destructuring
  \<open>const { encrypted, iv, authTag } = \<dots>\<close> (which throws on \<open>null\<close>) and the decipher
  run. \<open>None\<close> when any of it throws.
\<close>

definition decipher :: "runtime \<Rightarrow> vault_config \<Rightarrow> jsval \<Rightarrow> string option" where
  "decipher R cfg v =
     (case prop_read v ''encrypted'' of
        Inl e \<Rightarrow> None
      | Inr encrypted \<Rightarrow>
          gcm_decrypt R (encryptionKey cfg) (prop_get v ''iv'') (prop_get v ''authTag'')
            encrypted)"

text \<open>
  \<open>_decrypt(encryptedData)\<close>. Every failure inside the \<open>try\<close> (the text is not JSON,
  the destructuring throws, the decipher throws) ends in the \<open>catch\<close>, which returns
  \<open>encryptedData\<close> itself.
\<close>

definition decrypt :: "runtime \<Rightarrow> vault_config \<Rightarrow> string \<Rightarrow> string" where
  "decrypt R cfg encryptedData =
     (case json_parse R encryptedData of
        None \<Rightarrow> encryptedData
      | Some v \<Rightarrow>
          (case decipher R cfg v of
             Some decrypted \<Rightarrow> decrypted
           | None \<Rightarrow> encryptedData))"

text \<open>
  What \<open>_encrypt\<close> and \<open>_decrypt\<close> rely on from the libraries for one payload, key and
  iv. If the cipher accepts the key: \<open>JSON.parse\<close> reads back the envelope that
  \<open>JSON.stringify\<close> wrote, and the decipher returns the payload from the envelope's
  untampered fields. If the cipher rejects the key: the decipher rejects it too.
\<close>

definition cipher_inverts :: "runtime \<Rightarrow> vault_config \<Rightarrow> string \<Rightarrow> string \<Rightarrow> bool" where
  "cipher_inverts R cfg iv x =
     (case gcm_encrypt R (encryptionKey cfg) iv x of
        Some (encrypted, authTag) \<Rightarrow>
          json_parse R (json_stringify R (envelope encrypted iv authTag))
            = Some (envelope encrypted iv authTag)
          \<and> gcm_decrypt R (encryptionKey cfg) (JStr iv) (JStr authTag) (JStr encrypted) = Some x
      | None \<Rightarrow>
          (case json_parse R x of None \<Rightarrow> True | Some v \<Rightarrow> decipher R cfg v = None))"

text \<open>
  \<open>Buffer.from(s, 'hex')\<close>, by which \<open>_decrypt\<close> turns the \<open>iv\<close> and \<open>authTag\<close> fields
  into bytes: pairs of hexadecimal digits are decoded up to the first pair that is not
  one, and the rest of the string is dropped.
\<close>

definition hex_val :: "char \<Rightarrow> nat option" where
  "hex_val c =
     (let n = of_char c :: nat
      in if 48 \<le> n \<and> n \<le> 57 then Some (n - 48)
         else if 97 \<le> n \<and> n \<le> 102 then Some (n - 87)
         else if 65 \<le> n \<and> n \<le> 70 then Some (n - 55)
         else None)"

fun hex_bytes :: "string \<Rightarrow> nat list" where
  "hex_bytes (a # b # s) =
     (case (hex_val a, hex_val b) of
        (Some x, Some y) \<Rightarrow> (16 * x + y) # hex_bytes s
      | _ \<Rightarrow> [])"
| "hex_bytes s = []"

text \<open>
  What authentication means for the decipher: for one key, iv and ciphertext, AES-GCM
  accepts at most one tag of the full length of 16 bytes.
\<close>

definition tag_authenticates :: "runtime \<Rightarrow> vault_config \<Rightarrow> bool" where
  "tag_authenticates R cfg =
     (\<forall>iv encrypted t t'.
        length (hex_bytes t) = 16 \<and> length (hex_bytes t') = 16
        \<and> hex_bytes t' \<noteq> hex_bytes t
        \<and> gcm_decrypt R (encryptionKey cfg) (JStr iv) (JStr t) (JStr encrypted) \<noteq> None
        \<longrightarrow> gcm_decrypt R (encryptionKey cfg) (JStr iv) (JStr t') (JStr encrypted) = None)"

subsection \<open>Saving and loading a context\<close>

text \<open>\<open>_persistContext(context)\<close>: one unit \<open><id>.ctx\<close> per context.\<close>

definition persistContext :: "runtime \<Rightarrow> string \<Rightarrow> vault \<Rightarrow> disk \<Rightarrow> jsval \<Rightarrow> disk" where
  "persistContext R iv v d c =
     (let data = json_stringify R c;
          encrypted = (if encryptionEnabled (config v) then encrypt R (config v) iv data
                       else data);
          filename = to_string (prop_get c ''id'') @ ''.ctx''
      in d\<lparr>ctx_dir := writeFileSync (ctx_dir d) filename encrypted\<rparr>)"

text \<open>
  \<open>saveContext(context)\<close>. The guard \<open>!context || !context.id\<close> throws before anything
  is written; the result pairs the outcome with the Vault and the disk afterwards.
\<close>

definition saveContext ::
  "runtime \<Rightarrow> string \<Rightarrow> vault \<Rightarrow> disk \<Rightarrow> jsval \<Rightarrow> (js_error + unit) \<times> vault \<times> disk" where
  "saveContext R iv v d c =
     (if \<not> truthy c \<or> \<not> truthy (prop_get c ''id'')
      then (Inl (Error ''Context must have an id''), v, d)
      else
        (let v' = v\<lparr>contexts := AList.update (prop_get c ''id'') c (contexts v)\<rparr>;
             d' = (if \<not> memoryOnly v then persistContext R iv v' d c else d)
         in (Inr (), v', d')))"

text \<open>
  \<open>_loadContextFromDisk(contextId)\<close>: \<open>null\<close> when the unit is absent or empty and when
  \<open>JSON.parse\<close> throws; otherwise whatever \<open>JSON.parse\<close> returns.
\<close>

definition loadContextFromDisk :: "runtime \<Rightarrow> vault \<Rightarrow> disk \<Rightarrow> jsval \<Rightarrow> jsval" where
  "loadContextFromDisk R v d ctxId =
     (case map_of (ctx_dir d) (to_string ctxId @ ''.ctx'') of
        None \<Rightarrow> JNull
      | Some data \<Rightarrow>
          (if data = [] then JNull
           else
             (let decrypted = (if encryptionEnabled (config v) then decrypt R (config v) data
                               else data)
              in (case json_parse R decrypted of None \<Rightarrow> JNull | Some c \<Rightarrow> c))))"

text \<open>\<open>loadContext(ctxId)\<close>: the returned value and the Vault afterwards.\<close>

definition loadContext :: "runtime \<Rightarrow> vault \<Rightarrow> disk \<Rightarrow> jsval \<Rightarrow> jsval \<times> vault" where
  "loadContext R v d ctxId =
     (case map_of (contexts v) ctxId of
        Some c \<Rightarrow> (c, v)
      | None \<Rightarrow>
          (if \<not> memoryOnly v
           then
             (let c = loadContextFromDisk R v d ctxId
              in if truthy c
                 then (c, v\<lparr>contexts := AList.update ctxId c (contexts v)\<rparr>)
                 else (JNull, v))
           else (JNull, v)))"

subsection \<open>Backup, rotation and restore\<close>

definition backup_name :: "nat \<Rightarrow> string" where
  "backup_name ts = ''backup_'' @ dec ts @ ''.bak''"

text \<open>
  The loop of \<open>_cleanOldBackups\<close> over the sorted names: while there are more names
  than \<open>maxBackups\<close>, shift the first and unlink it. With a negative \<open>maxBackups\<close> the
  loop reaches the empty list, where \<open>shift()\<close> gives \<open>undefined\<close> and \<open>path.join\<close>
  throws into the \<open>catch\<close>.
\<close>

fun clean_loop :: "int \<Rightarrow> string list \<Rightarrow> dir \<Rightarrow> dir" where
  "clean_loop m [] d = d"
| "clean_loop m (f # fs) d =
     (if int (length (f # fs)) > m then clean_loop m fs (unlinkSync d f) else d)"

text \<open>\<open>_cleanOldBackups()\<close>: list, keep the \<open>.bak\<close> names, \<open>sort()\<close>, run the loop.\<close>

definition cleanOldBackups :: "runtime \<Rightarrow> vault \<Rightarrow> disk \<Rightarrow> disk" where
  "cleanOldBackups R v d =
     (let files = sort (filter (\<lambda>f. endsWith f ''.bak'') (readdirSync R (backup_dir d)))
      in d\<lparr>backup_dir := clean_loop (maxBackups (config v)) files (backup_dir d)\<rparr>)"

text \<open>The snapshot object \<open>{timestamp, contexts: Array.from(this.contexts.values())}\<close>.\<close>

definition backupData :: "nat \<Rightarrow> vault \<Rightarrow> jsval" where
  "backupData now v =
     JObj [(''timestamp'', JNum (int now)), (''contexts'', JArr (map snd (contexts v)))]"

text \<open>
  \<open>backup()\<close>; \<open>now\<close> is \<open>Date.now()\<close>, \<open>iv\<close> the random iv of \<open>_encrypt\<close>. The result is
  \<open>undefined\<close> for a memory-only Vault and the timestamp otherwise.
\<close>

definition backup :: "runtime \<Rightarrow> nat \<Rightarrow> string \<Rightarrow> vault \<Rightarrow> disk \<Rightarrow> jsval \<times> disk" where
  "backup R now iv v d =
     (if memoryOnly v then (JUndefined, d)
      else
        (let data = json_stringify R (backupData now v);
             encrypted = (if encryptionEnabled (config v) then encrypt R (config v) iv data
                          else data);
             d1 = d\<lparr>backup_dir := writeFileSync (backup_dir d) (backup_name now) encrypted\<rparr>
         in (JNum (int now), cleanOldBackups R v d1)))"

text \<open>
  The \<open>forEach\<close> of \<open>restore\<close>: each context is stored under its own \<open>id\<close>; reading
  \<open>ctx.id\<close> of \<open>null\<close> throws and leaves the contexts stored so far.
\<close>

fun restore_each :: "jsval list \<Rightarrow> (jsval \<times> jsval) list \<Rightarrow> bool \<times> (jsval \<times> jsval) list" where
  "restore_each [] m = (True, m)"
| "restore_each (c # cs) m =
     (case prop_read c ''id'' of
        Inl e \<Rightarrow> (False, m)
      | Inr k \<Rightarrow> restore_each cs (AList.update k c m))"

text \<open>
  \<open>restore(timestamp)\<close>, \<open>timestamp\<close> a number or \<open>null\<close> (\<open>None\<close>); \<open>0\<close> is falsy and
  selects the latest like \<open>null\<close>. "Latest" is the last name of the listing as the
  runtime returns it: \<open>restore\<close> does not sort. A missing file makes \<open>readFileSync\<close>
  throw, as do a text that is not JSON and one that parses to \<open>null\<close>; all of these
  return \<open>false\<close> before the map is touched. After \<open>this.contexts.clear()\<close>, a
  \<open>contexts\<close> field that is not an array makes \<open>forEach\<close> throw, with the map left empty.
\<close>

definition restore :: "runtime \<Rightarrow> nat option \<Rightarrow> vault \<Rightarrow> disk \<Rightarrow> bool \<times> vault" where
  "restore R ts v d =
     (if memoryOnly v then (False, v)
      else
        (let files = filter (\<lambda>f. endsWith f ''.bak'') (readdirSync R (backup_dir d))
         in if files = [] then (False, v)
            else
              (let backupFile =
                     (case ts of
                        Some t \<Rightarrow> if t \<noteq> 0 then backup_name t else last files
                      | None \<Rightarrow> last files)
               in (case map_of (backup_dir d) backupFile of
                     None \<Rightarrow> (False, v)
                   | Some stored \<Rightarrow>
                       (if stored = [] then (False, v)
                        else
                          (let decrypted =
                                 (if encryptionEnabled (config v)
                                  then decrypt R (config v) stored else stored)
                           in (case json_parse R decrypted of
                                 None \<Rightarrow> (False, v)
                               | Some parsed \<Rightarrow>
                                   (case prop_read parsed ''contexts'' of
                                      Inl e \<Rightarrow> (False, v)
                                    | Inr cs \<Rightarrow>
                                        (case cs of
                                           JArr ctxs \<Rightarrow>
                                             (let r = restore_each ctxs []
                                              in (fst r, v\<lparr>contexts := snd r\<rparr>))
                                         | _ \<Rightarrow> (False, v\<lparr>contexts := []\<rparr>))))))))))"

text \<open>\<open>stopAutoBackup()\<close> and \<open>shutdown()\<close>.\<close>

definition stopAutoBackup :: "vault \<Rightarrow> vault" where
  "stopAutoBackup v = v\<lparr>backupTimer := False\<rparr>"

definition shutdown :: "runtime \<Rightarrow> nat \<Rightarrow> string \<Rightarrow> vault \<Rightarrow> disk \<Rightarrow> vault \<times> disk" where
  "shutdown R now iv v d =
     (let v' = stopAutoBackup v
      in (v', snd (backup R now iv v' d)))"

text \<open>
  A run of \<open>backup()\<close> calls, one per clock reading and iv, on an unchanged Vault.
\<close>

fun backup_run :: "runtime \<Rightarrow> vault \<Rightarrow> (nat \<times> string) list \<Rightarrow> disk \<Rightarrow> disk" where
  "backup_run R v [] d = d"
| "backup_run R v ((now, iv) # calls) d = backup_run R v calls (snd (backup R now iv v d))"

subsection \<open>Notions used in the statements\<close>

text \<open>
  The entries of a context map are keyed by their own ids (what \<open>saveContext\<close> and
  \<open>restore\<close> establish), the ids being strings, numbers or booleans, each once.
\<close>

definition well_keyed :: "(jsval \<times> jsval) list \<Rightarrow> bool" where
  "well_keyed m =
     (distinct (map fst m)
      \<and> list_all (\<lambda>kc. prop_read (snd kc) ''id'' = Inr (fst kc) \<and> is_primitive (fst kc)) m)"

text \<open>The snapshot names of a backups directory, and the last \<open>k\<close> elements of a list.\<close>

definition bak_names :: "dir \<Rightarrow> string list" where
  "bak_names d = filter (\<lambda>f. endsWith f ''.bak'') (map fst d)"

definition lastn :: "nat \<Rightarrow> 'a list \<Rightarrow> 'a list" where
  "lastn k xs = drop (length xs - k) xs"

text \<open>
  Two behaviours a directory listing can have: it returns every name of the directory
  once, in some order; it returns the names in name order.
\<close>

definition lists_all_names :: "runtime \<Rightarrow> bool" where
  "lists_all_names R = (\<forall>ns. mset (readdir_order R ns) = mset ns)"

definition lists_in_name_order :: "runtime \<Rightarrow> bool" where
  "lists_in_name_order R = (\<forall>ns. readdir_order R ns = sort ns)"

text \<open>
  What \<open>backup\<close> and \<open>restore\<close> rely on from the libraries for one snapshot object:
  \<open>JSON.parse\<close> reads back the text \<open>JSON.stringify\<close> wrote for it, the text that is
  stored is not empty, and with encryption on the cipher keeps its contract for that
  text.
\<close>

definition snapshot_readable :: "runtime \<Rightarrow> vault_config \<Rightarrow> string \<Rightarrow> jsval \<Rightarrow> bool" where
  "snapshot_readable R cfg iv snap =
     (let data = json_stringify R snap;
          stored = (if encryptionEnabled cfg then encrypt R cfg iv data else data)
      in json_parse R data = Some snap \<and> stored \<noteq> []
         \<and> (if encryptionEnabled cfg then cipher_inverts R cfg iv data else True))"

section \<open>A reference runtime\<close>

text \<open>
  A small runtime for running the Vault on concrete inputs. It stands in for the
  libraries and has the behaviour the statements assume of them: its text format is a
  length-prefixed stand-in for JSON (a tag character, then the payload; the elements of
  an array and the keys and values of an object as \<open><length>:<text>\<close> frames), its
  cipher a keyed checksum (the ciphertext is the reversed payload, the tag is key, iv
  and ciphertext joined, and the empty key is the one the cipher rejects), and its
  listings are in name order.
\<close>

definition is_digit :: "char \<Rightarrow> bool" where
  "is_digit c = (c \<in> set ''0123456789'')"

definition digit_val :: "char \<Rightarrow> nat" where
  "digit_val c = length (takeWhile (\<lambda>d. d \<noteq> c) ''0123456789'')"

definition undec :: "string \<Rightarrow> nat" where
  "undec ds = foldl (\<lambda>n c. 10 * n + digit_val c) 0 ds"

definition frame :: "string \<Rightarrow> string" where
  "frame s = dec (length s) @ '':'' @ s"

definition unframe :: "string \<Rightarrow> (string \<times> string) option" where
  "unframe s =
     (let ds = takeWhile is_digit s
      in (case dropWhile is_digit s of
            [] \<Rightarrow> None
          | c # r \<Rightarrow>
              (if c = CHR '':'' \<and> ds \<noteq> [] \<and> undec ds \<le> length r
               then Some (take (undec ds) r, drop (undec ds) r)
               else None)))"

fun chunks :: "nat \<Rightarrow> string \<Rightarrow> string list option" where
  "chunks n [] = Some []"
| "chunks 0 (c # s) = None"
| "chunks (Suc n) (c # s) =
     (case unframe (c # s) of
        None \<Rightarrow> None
      | Some (x, r) \<Rightarrow> map_option ((#) x) (chunks n r))"

fun pairs :: "string list \<Rightarrow> (string \<times> string) list option" where
  "pairs [] = Some []"
| "pairs [k] = None"
| "pairs (k # x # r) = map_option ((#) (k, x)) (pairs r)"

fun ref_stringify :: "jsval \<Rightarrow> string" where
  "ref_stringify JUndefined = ''u''"
| "ref_stringify JNull = ''n''"
| "ref_stringify (JBool b) = (if b then ''t'' else ''f'')"
| "ref_stringify (JNum n) = (if n < 0 then ''-'' @ dec (nat (- n)) else ''+'' @ dec (nat n))"
| "ref_stringify (JStr s) = ''s'' @ s"
| "ref_stringify (JArr xs) = ''a'' @ concat (map (\<lambda>x. frame (ref_stringify x)) xs)"
| "ref_stringify (JObj kvs) =
     ''o'' @ concat (map (\<lambda>kv. frame (fst kv) @ frame (ref_stringify (snd kv))) kvs)"

fun ref_parse_fuel :: "nat \<Rightarrow> string \<Rightarrow> jsval option" where
  "ref_parse_fuel 0 s = None"
| "ref_parse_fuel (Suc n) [] = None"
| "ref_parse_fuel (Suc n) (c # r) =
     (if c = CHR ''u'' \<and> r = [] then Some JUndefined
      else if c = CHR ''n'' \<and> r = [] then Some JNull
      else if c = CHR ''t'' \<and> r = [] then Some (JBool True)
      else if c = CHR ''f'' \<and> r = [] then Some (JBool False)
      else if c = CHR ''+'' \<and> r \<noteq> [] \<and> list_all is_digit r then Some (JNum (int (undec r)))
      else if c = CHR ''-'' \<and> r \<noteq> [] \<and> list_all is_digit r then Some (JNum (- int (undec r)))
      else if c = CHR ''s'' then Some (JStr r)
      else if c = CHR ''a'' then
        (case chunks (length r) r of
           None \<Rightarrow> None
         | Some cs \<Rightarrow> map_option JArr (those (map (ref_parse_fuel n) cs)))
      else if c = CHR ''o'' then
        (case chunks (length r) r of
           None \<Rightarrow> None
         | Some cs \<Rightarrow>
             (case pairs cs of
                None \<Rightarrow> None
              | Some kvs \<Rightarrow>
                  map_option JObj
                    (those (map (\<lambda>kv. map_option (Pair (fst kv)) (ref_parse_fuel n (snd kv)))
                              kvs))))
      else None)"

definition ref_parse :: "string \<Rightarrow> jsval option" where
  "ref_parse s = ref_parse_fuel (length s) s"

definition ref_encrypt :: "string \<Rightarrow> string \<Rightarrow> string \<Rightarrow> (string \<times> string) option" where
  "ref_encrypt key iv data =
     (if key = [] then None else Some (rev data, key @ iv @ rev data))"

definition ref_decrypt :: "string \<Rightarrow> jsval \<Rightarrow> jsval \<Rightarrow> jsval \<Rightarrow> string option" where
  "ref_decrypt key iv authTag encrypted =
     (case (iv, authTag, encrypted) of
        (JStr i, JStr t, JStr c) \<Rightarrow>
          (if key \<noteq> [] \<and> t = key @ i @ c then Some (rev c) else None)
      | _ \<Rightarrow> None)"

definition ref_runtime :: runtime where
  "ref_runtime =
     \<lparr>json_stringify = ref_stringify, json_parse = ref_parse,
      gcm_encrypt = ref_encrypt, gcm_decrypt = ref_decrypt,
      readdir_order = sort\<rparr>"


text \<open>
  A second cipher for the reference runtime, which checks the hexadecimal fields as
  Node.js does: the key must decode to 32 bytes and the iv to at least one, every tag
  has 16 bytes (the tag of this stand-in is the first half of the key), and the
  decipher accepts a tag whose bytes are those. The ciphertext is the reversed payload.
\<close>

definition hex_encrypt :: "string \<Rightarrow> string \<Rightarrow> string \<Rightarrow> (string \<times> string) option" where
  "hex_encrypt key iv data =
     (if length (hex_bytes key) = 32 \<and> hex_bytes iv \<noteq> []
      then Some (rev data, take 32 key) else None)"

definition hex_decrypt :: "string \<Rightarrow> jsval \<Rightarrow> jsval \<Rightarrow> jsval \<Rightarrow> string option" where
  "hex_decrypt key iv authTag encrypted =
     (case (iv, authTag, encrypted) of
        (JStr i, JStr t, JStr c) \<Rightarrow>
          (if length (hex_bytes key) = 32 \<and> hex_bytes i \<noteq> []
              \<and> hex_bytes t = hex_bytes (take 32 key)
           then Some (rev c) else None)
      | _ \<Rightarrow> None)"

definition hex_runtime :: runtime where
  "hex_runtime = ref_runtime\<lparr>gcm_encrypt := hex_encrypt, gcm_decrypt := hex_decrypt\<rparr>"

text \<open>
  A reference \<open>Math\<close> library: the correctly rounded exponential and logarithm.
\<close>

definition ref_math :: mathlib where
  "ref_math = \<lparr>math_exp = (\<lambda>x. rnd64 (exp x)), math_log = (\<lambda>x. rnd64 (ln x))\<rparr>"
section \<open>Sample inputs for the concrete runs\<close>

text \<open>
  The values that the eight heuristics of the source give on the answers \<open>dogs 7\<close> and
  \<open>dogs is some\<close> for the question \<open>What about cats\<close>, as a table: relevance \<open>0.3\<close>
  (no word shared with the question), completeness \<open>0.3\<close> (fewer than 20 words),
  structure \<open>0.4\<close>, confidence markers \<open>0.5\<close>, contradictions \<open>1\<close>, context alignment
  \<open>0.9\<close> for the answer that contains \<open>is\<close> and \<open>0.5\<close> for the other, specificity
  \<open>0.8\<close> for the answer with a digit and \<open>0.3\<close> for the one with \<open>some\<close>, evidence \<open>0\<close>.
  Each decimal is written as the value of the format that its literal denotes.
\<close>

definition sample_heuristics :: heuristics where
  "sample_heuristics =
     \<lparr>scoreRelevance = (\<lambda>a q. 5404319552844595 / 2 ^ 54),
      scoreCompleteness = (\<lambda>a. 5404319552844595 / 2 ^ 54),
      scoreStructure = (\<lambda>a. 3602879701896397 / 2 ^ 53),
      scoreConfidenceMarkers = (\<lambda>a. 1 / 2),
      scoreContradictions = (\<lambda>a. 1),
      scoreContextAlignment =
        (\<lambda>a q. if a = ''dogs is some'' then 8106479329266893 / 2 ^ 53 else 1 / 2),
      scoreSpecificity =
        (\<lambda>a. if a = ''dogs 7'' then 3602879701896397 / 2 ^ 52
             else 5404319552844595 / 2 ^ 54),
      scoreEvidence = (\<lambda>a. 0)\<rparr>"

text \<open>
  A Vault configuration with encryption on, a context, a Vault holding it, an empty disk.
\<close>

definition sample_config :: vault_config where
  "sample_config =
     \<lparr>storagePath = ''./contextual_data'', encryptionEnabled = True, encryptionKey = ''k'',
      backupEnabled = True, backupInterval = 300000, maxBackups = 2\<rparr>"

definition sample_context :: jsval where
  "sample_context = JObj [(''id'', JStr ''c1''), (''appId'', JStr ''app1'')]"

definition sample_vault :: vault where
  "sample_vault =
     \<lparr>config = sample_config, contexts = [(JStr ''c1'', sample_context)],
      backupTimer = True, memoryOnly = False\<rparr>"

definition empty_disk :: disk where
  "empty_disk = \<lparr>ctx_dir = [], backup_dir = []\<rparr>"


text \<open>
  A configuration whose key is 64 hexadecimal digits (32 bytes), and an iv of 16 bytes.
\<close>

definition hex_config :: vault_config where
  "hex_config =
     sample_config
       \<lparr>encryptionKey :=
          ''00112233445566778899aabbccddeeff00112233445566778899aabbccddeeff''\<rparr>"

definition sample_iv :: string where
  "sample_iv = ''0102030405060708090a0b0c0d0e0f10''"

text \<open>
  The engine's default configuration with \<open>minMomentum\<close> as the value of the format that
  the literal \<open>0.1\<close> denotes.
\<close>

definition sample_engine_config :: engine_config where
  "sample_engine_config = default_engine_config\<lparr>minMomentum := 3602879701896397 / 2 ^ 55\<rparr>"
section \<open>Theorems: binary64 arithmetic\<close>

lemma pow2_powr: "pow2 k = 2 powr (of_int k)"
  by (simp add: pow2_def powr_real_of_int inverse_eq_divide)

lemma pow2_pos [simp]: "0 < pow2 k"
  by (simp add: pow2_powr)

lemma pow2_nonneg [simp]: "0 \<le> pow2 k"
  using pow2_pos [of k] by linarith

lemma pow2_neq0 [simp]: "pow2 k \<noteq> 0"
  using pow2_pos [of k] by linarith

lemma pow2_add: "pow2 (a + b) = pow2 a * pow2 b"
  by (simp add: pow2_powr powr_add)

lemma pow2_mono: "a \<le> b \<Longrightarrow> pow2 a \<le> pow2 b"
  by (simp add: pow2_powr)

lemma pow2_less: "a < b \<Longrightarrow> pow2 a < pow2 b"
  by (simp add: pow2_powr)

lemma pow2_le_iff [simp]: "pow2 a \<le> pow2 b \<longleftrightarrow> a \<le> b"
  by (simp add: pow2_powr)

lemma pow2_nat: "0 \<le> k \<Longrightarrow> pow2 k = 2 ^ nat k"
  by (simp add: pow2_def)

lemma pow2_0 [simp]: "pow2 0 = 1"
  by (simp add: pow2_def)

lemma binade_bounds:
  "e \<le> binade n e x \<and> binade n e x \<le> e + int n
   \<and> (pow2 e \<le> x \<longrightarrow> pow2 (binade n e x) \<le> x)
   \<and> (binade n e x < e + int n \<longrightarrow> x < pow2 (binade n e x + 1))"
proof (induction n arbitrary: e)
  case 0
  show ?case by simp
next
  case (Suc n)
  show ?case
  proof (cases "pow2 (e + 1) \<le> x")
    case True
    with Suc [of "e + 1"] show ?thesis by auto
  next
    case False
    then show ?thesis by auto
  qed
qed

lemma expo_range: "- 1022 \<le> expo x \<and> expo x \<le> 1023"
  using binade_bounds [of "- 1022" 2045 "\<bar>x\<bar>"] by (simp add: expo_def)

lemma expo_lower: "pow2 (- 1022) \<le> \<bar>x\<bar> \<Longrightarrow> pow2 (expo x) \<le> \<bar>x\<bar>"
  using binade_bounds [of "- 1022" 2045 "\<bar>x\<bar>"] by (simp add: expo_def)

lemma expo_upper: "expo x < 1023 \<Longrightarrow> \<bar>x\<bar> < pow2 (expo x + 1)"
  using binade_bounds [of "- 1022" 2045 "\<bar>x\<bar>"] by (simp add: expo_def)

lemma binade_unique:
  assumes "pow2 e \<le> x" and "x < pow2 (e + 1)" and "e0 \<le> e" and "e \<le> e0 + int n"
    and "pow2 e0 \<le> x \<or> e = e0"
  shows "binade n e0 x = e"
  using assms
proof (induction n arbitrary: e0)
  case 0
  then show ?case by simp
next
  case (Suc n)
  show ?case
  proof (cases "e = e0")
    case True
    with Suc.prems show ?thesis by simp
  next
    case False
    with Suc.prems have lt: "e0 + 1 \<le> e" by simp
    then have "pow2 (e0 + 1) \<le> pow2 e" by simp
    with Suc.prems(1) have le: "pow2 (e0 + 1) \<le> x" by linarith
    have "binade n (e0 + 1) x = e"
      using Suc.prems lt le by (intro Suc.IH) auto
    with le show ?thesis by simp
  qed
qed

lemma expo_eq:
  assumes "pow2 e \<le> \<bar>x\<bar>" and "\<bar>x\<bar> < pow2 (e + 1)" and "- 1022 \<le> e" and "e \<le> 1023"
  shows "expo x = e"
  unfolding expo_def
proof (rule binade_unique [OF assms(1,2)])
  show "- 1022 \<le> e" by fact
  show "e \<le> - 1022 + int 2045" using assms(4) by simp
  show "pow2 (- 1022) \<le> \<bar>x\<bar> \<or> e = - 1022"
    using assms(1,3) pow2_mono [of "- 1022" e] by linarith
qed

lemma binade_stop: "x < pow2 (e + 1) \<Longrightarrow> binade n e x = e"
  by (cases n) simp_all

lemma expo_subnormal:
  assumes "\<bar>x\<bar> < pow2 (- 1022)"
  shows "expo x = - 1022"
proof -
  have "pow2 (- 1022) < pow2 (- 1022 + 1)" by (rule pow2_less) simp
  with assms have "\<bar>x\<bar> < pow2 (- 1022 + 1)" by linarith
  then show ?thesis unfolding expo_def by (rule binade_stop)
qed

lemma rne_of_int [simp]: "rne (of_int n) = n"
  by (simp add: rne_def)

lemma rne_0 [simp]: "rne 0 = 0"
  by (simp add: rne_def)

lemma rne_bounds: "of_int (rne y) - 1 / 2 \<le> y \<and> y \<le> of_int (rne y) + 1 / 2"
  unfolding rne_def Let_def by (auto; linarith)

lemma rne_floor_or: "rne y = \<lfloor>y\<rfloor> \<or> rne y = \<lfloor>y\<rfloor> + 1"
  by (simp add: rne_def Let_def)

lemma rne_mono:
  assumes "x \<le> y"
  shows "rne x \<le> rne y"
proof (cases "\<lfloor>x\<rfloor> = \<lfloor>y\<rfloor>")
  case True
  with assms show ?thesis
    unfolding rne_def Let_def by (auto; linarith)
next
  case False
  with assms have "\<lfloor>x\<rfloor> < \<lfloor>y\<rfloor>"
    using floor_mono [OF assms] by linarith
  then have "\<lfloor>x\<rfloor> + 1 \<le> \<lfloor>y\<rfloor>" by simp
  moreover have "rne x \<le> \<lfloor>x\<rfloor> + 1"
    using rne_floor_or [of x] by auto
  moreover have "\<lfloor>y\<rfloor> \<le> rne y"
    using rne_floor_or [of y] by auto
  ultimately show ?thesis by linarith
qed

lemma rne_minus: "rne (- y) = - rne y"
proof (cases "y = of_int \<lfloor>y\<rfloor>")
  case True
  then obtain n where "y = of_int n" by metis
  then show ?thesis
    by (simp add: rne_of_int flip: of_int_minus)
next
  case False
  then have fl: "\<lfloor>- y\<rfloor> = - \<lfloor>y\<rfloor> - 1"
    by (metis ceiling_altdef ceiling_def add_diff_cancel minus_diff_eq minus_minus of_int_floor_cancel
        uminus_add_conv_diff)
  have d: "0 < y - of_int \<lfloor>y\<rfloor>" "y - of_int \<lfloor>y\<rfloor> < 1"
    using False by linarith+
  show ?thesis
    unfolding rne_def Let_def fl using d by (auto; linarith)
qed

lemma expo_minus [simp]: "expo (- x) = expo x"
  by (simp add: expo_def)

lemma quantum_minus [simp]: "quantum (- x) = quantum x"
  by (simp add: quantum_def)

lemma quantum_pos [simp]: "0 < quantum x"
  by (simp add: quantum_def)

lemma quantum_nonneg [simp]: "0 \<le> quantum x"
  by (simp add: quantum_def)

lemma quantum_neq0 [simp]: "quantum x \<noteq> 0"
  by (simp add: quantum_def)

lemma nearest_minus: "nearest (- x) = - nearest x"
  by (simp add: nearest_def rne_minus)

lemma nearest_0 [simp]: "nearest 0 = 0"
  by (simp add: nearest_def)

lemma nearest_nonneg: "0 \<le> x \<Longrightarrow> 0 \<le> nearest x"
proof -
  assume "0 \<le> x"
  then have "0 \<le> x / quantum x" by simp
  then have "rne 0 \<le> rne (x / quantum x)" by (rule rne_mono)
  then have "0 \<le> real_of_int (rne (x / quantum x))" by simp
  then show ?thesis
    unfolding nearest_def by (intro mult_nonneg_nonneg) simp_all
qed

text \<open>Within one binade the grid is uniform, and rounding is monotone there.\<close>

lemma nearest_le_next:
  assumes "0 \<le> x" and "expo x < 1023"
  shows "nearest x \<le> pow2 (expo x + 1)"
proof -
  let ?q = "quantum x"
  have "x < pow2 (expo x + 1)"
    using expo_upper [OF assms(2)] assms(1) by simp
  then have "x / ?q \<le> pow2 (expo x + 1) / ?q"
    by (simp add: divide_right_mono)
  also have "pow2 (expo x + 1) / ?q = pow2 53"
    by (simp add: quantum_def field_simps flip: pow2_add)
  also have "\<dots> = of_int (2 ^ 53)"
    by (simp add: pow2_def)
  finally have "rne (x / ?q) \<le> rne (of_int (2 ^ 53))"
    by (rule rne_mono)
  then have "of_int (rne (x / ?q)) \<le> (2::real) ^ 53"
    unfolding rne_of_int by (metis of_int_le_iff of_int_numeral of_int_power)
  then have "nearest x \<le> 2 ^ 53 * ?q"
    by (simp add: nearest_def)
  also have "2 ^ 53 * ?q = pow2 53 * ?q"
    by (simp add: pow2_def)
  also have "\<dots> = pow2 (53 + (expo x - 52))"
    unfolding quantum_def by (rule pow2_add [symmetric])
  also have "53 + (expo x - 52) = expo x + 1" by simp
  finally show ?thesis .
qed

lemma nearest_ge_binade:
  assumes "pow2 (- 1022) \<le> x"
  shows "pow2 (expo x) \<le> nearest x"
proof -
  let ?q = "quantum x"
  have x: "0 \<le> x" using assms pow2_pos [of "- 1022"] by linarith
  have "pow2 (expo x) \<le> x"
    using expo_lower [of x] assms x by simp
  then have "pow2 (expo x) / ?q \<le> x / ?q"
    by (simp add: divide_right_mono)
  moreover have "pow2 (expo x) / ?q = pow2 52"
    by (simp add: quantum_def field_simps flip: pow2_add)
  moreover have "pow2 52 = of_int (2 ^ 52)"
    by (simp add: pow2_def)
  ultimately have "rne (of_int (2 ^ 52)) \<le> rne (x / ?q)"
    by (metis rne_mono)
  then have "(2::real) ^ 52 \<le> of_int (rne (x / ?q))"
    unfolding rne_of_int by (metis of_int_le_iff of_int_numeral of_int_power)
  then have "2 ^ 52 * ?q \<le> nearest x"
    by (simp add: nearest_def)
  moreover have "2 ^ 52 * ?q = pow2 52 * ?q"
    by (simp add: pow2_def)
  moreover have "pow2 52 * ?q = pow2 (52 + (expo x - 52))"
    unfolding quantum_def by (rule pow2_add [symmetric])
  ultimately show ?thesis by simp
qed

lemma expo_mono:
  assumes "\<bar>x\<bar> \<le> \<bar>y\<bar>"
  shows "expo x \<le> expo y"
proof (rule ccontr)
  assume "\<not> expo x \<le> expo y"
  then have lt: "expo y < expo x" by simp
  then have y: "expo y < 1023" using expo_range [of x] by simp
  have "- 1022 < expo x" using lt expo_range [of y] by simp
  then have "pow2 (- 1022) \<le> \<bar>x\<bar>"
    using expo_subnormal [of x] by force
  then have "pow2 (expo x) \<le> \<bar>x\<bar>" by (rule expo_lower)
  moreover have "\<bar>y\<bar> < pow2 (expo y + 1)" using y by (rule expo_upper)
  moreover have "pow2 (expo y + 1) \<le> pow2 (expo x)" using lt by simp
  ultimately show False using assms by linarith
qed

lemma nearest_mono_nonneg:
  assumes "0 \<le> x" and "x \<le> y"
  shows "nearest x \<le> nearest y"
proof (cases "expo x = expo y")
  case True
  then have q: "quantum x = quantum y" by (simp add: quantum_def)
  have "x / quantum y \<le> y / quantum y"
    using assms(2) by (simp add: divide_right_mono)
  then have "rne (x / quantum y) \<le> rne (y / quantum y)" by (rule rne_mono)
  then show ?thesis
    by (simp add: nearest_def q)
next
  case False
  have "expo x \<le> expo y" using assms by (intro expo_mono) simp
  with False have lt: "expo x < expo y" by simp
  then have x: "expo x < 1023" using expo_range [of y] by simp
  have "- 1022 < expo y" using lt expo_range [of x] by simp
  then have "pow2 (- 1022) \<le> \<bar>y\<bar>"
    using expo_subnormal [of y] by force
  then have y: "pow2 (- 1022) \<le> y" using assms by simp
  have "nearest x \<le> pow2 (expo x + 1)" using assms(1) x by (rule nearest_le_next)
  also have "\<dots> \<le> pow2 (expo y)" using lt by simp
  also have "\<dots> \<le> nearest y" using y by (rule nearest_ge_binade)
  finally show ?thesis .
qed

lemma nearest_mono:
  assumes "x \<le> y"
  shows "nearest x \<le> nearest y"
proof -
  consider "0 \<le> x" | "x < 0" "0 \<le> y" | "y < 0" using assms by linarith
  then show ?thesis
  proof cases
    case 1
    then show ?thesis using assms by (rule nearest_mono_nonneg)
  next
    case 2
    have "0 \<le> nearest (- x)" using 2 by (intro nearest_nonneg) simp
    then have "nearest x \<le> 0" by (simp add: nearest_minus)
    also have "0 \<le> nearest y" using 2 by (intro nearest_nonneg)
    finally show ?thesis .
  next
    case 3
    have "nearest (- y) \<le> nearest (- x)"
      using 3 assms by (intro nearest_mono_nonneg) simp_all
    then show ?thesis by (simp add: nearest_minus)
  qed
qed

lemma nearest_error: "\<bar>nearest x - x\<bar> \<le> quantum x / 2"
proof -
  let ?q = "quantum x"
  have "\<bar>of_int (rne (x / ?q)) - x / ?q\<bar> \<le> 1 / 2"
    using rne_bounds [of "x / ?q"] by linarith
  then have "\<bar>of_int (rne (x / ?q)) - x / ?q\<bar> * ?q \<le> 1 / 2 * ?q"
    by (intro mult_right_mono) simp_all
  moreover have "\<bar>of_int (rne (x / ?q)) - x / ?q\<bar> * ?q = \<bar>nearest x - x\<bar>"
  proof -
    have "\<bar>of_int (rne (x / ?q)) - x / ?q\<bar> * ?q = \<bar>(of_int (rne (x / ?q)) - x / ?q) * ?q\<bar>"
      by (simp add: abs_mult)
    also have "(of_int (rne (x / ?q)) - x / ?q) * ?q = nearest x - x"
      by (simp add: nearest_def algebra_simps)
    finally show ?thesis .
  qed
  ultimately show ?thesis by simp
qed

lemma nearest_rel_error:
  assumes "pow2 (- 1022) \<le> \<bar>x\<bar>"
  shows "\<bar>nearest x - x\<bar> \<le> pow2 (- 53) * \<bar>x\<bar>"
proof -
  have "quantum x / 2 = pow2 (- 53) * pow2 (expo x)"
  proof -
    have "pow2 (expo x - 52) = pow2 (expo x) * pow2 (- 52)"
      by (simp flip: pow2_add)
    moreover have "pow2 (- 52) / 2 = pow2 (- 53)"
      by (simp add: pow2_def)
    ultimately show ?thesis by (simp add: quantum_def)
  qed
  also have "\<dots> \<le> pow2 (- 53) * \<bar>x\<bar>"
    using expo_lower [OF assms] by (intro mult_left_mono) simp_all
  finally show ?thesis using nearest_error [of x] by linarith
qed

lemma nearest_eval:
  assumes "pow2 e \<le> \<bar>x\<bar>" and "\<bar>x\<bar> < pow2 (e + 1)" and "- 1022 \<le> e" and "e \<le> 1023"
  shows "nearest x = of_int (rne (x / pow2 (e - 52))) * pow2 (e - 52)"
  by (simp add: nearest_def quantum_def expo_eq [OF assms])

lemma nearest_eval_subnormal:
  assumes "\<bar>x\<bar> < pow2 (- 1022)"
  shows "nearest x = of_int (rne (x / pow2 (- 1074))) * pow2 (- 1074)"
  by (simp add: nearest_def quantum_def expo_subnormal [OF assms])

lemma pow2_diff_nat: "a \<le> b \<Longrightarrow> pow2 b = 2 ^ nat (b - a) * pow2 a"
proof -
  assume "a \<le> b"
  then have "pow2 b = pow2 (int (nat (b - a)) + a)" by simp
  also have "\<dots> = pow2 (int (nat (b - a))) * pow2 a" by (rule pow2_add)
  also have "pow2 (int (nat (b - a))) = 2 ^ nat (b - a)" by (simp add: pow2_def)
  finally show ?thesis .
qed

lemma nearest_on_grid:
  assumes "expo y - 52 \<le> k" and "y = of_int n * pow2 k"
  shows "nearest y = y"
proof -
  let ?m = "nat (k - (expo y - 52))"
  have "pow2 k = 2 ^ ?m * quantum y"
    unfolding quantum_def using assms(1) by (rule pow2_diff_nat)
  then have y: "y = of_int (n * 2 ^ ?m) * quantum y"
    using assms(2) by simp
  then have "y / quantum y = of_int (n * 2 ^ ?m) * quantum y / quantum y"
    by simp
  also have "\<dots> = of_int (n * 2 ^ ?m)"
    by (simp only: nonzero_mult_div_cancel_right [OF quantum_neq0])
  finally have "rne (y / quantum y) = n * 2 ^ ?m"
    by (simp only: rne_of_int)
  then have "nearest y = of_int (n * 2 ^ ?m) * quantum y"
    by (simp only: nearest_def)
  with y show ?thesis by simp
qed

text \<open>Every value of the format is a fixed point: an integer below \<open>2^53\<close> scaled by a
  power of two from \<open>2^-1074\<close> on.\<close>

lemma nearest_scaled_int:
  assumes "\<bar>n\<bar> < 2 ^ 53" and "- 1074 \<le> k"
  shows "nearest (of_int n * pow2 k) = of_int n * pow2 k"
proof -
  let ?x = "of_int n * pow2 k :: real"
  have ax: "\<bar>?x\<bar> = of_int \<bar>n\<bar> * pow2 k"
    by (simp add: abs_mult)
  have "real_of_int \<bar>n\<bar> < 2 ^ 53"
    using assms(1) by (metis of_int_less_iff of_int_numeral of_int_power)
  then have "\<bar>?x\<bar> < 2 ^ 53 * pow2 k"
    unfolding ax by (intro mult_strict_right_mono) simp_all
  also have "2 ^ 53 * pow2 k = pow2 53 * pow2 k" by (simp add: pow2_def)
  also have "\<dots> = pow2 (53 + k)" by (rule pow2_add [symmetric])
  finally have lt: "\<bar>?x\<bar> < pow2 (53 + k)" .
  have e: "expo ?x - 52 \<le> k"
  proof (cases "pow2 (- 1022) \<le> \<bar>?x\<bar>")
    case True
    then have "pow2 (expo ?x) \<le> \<bar>?x\<bar>" by (rule expo_lower)
    with lt have "pow2 (expo ?x) < pow2 (53 + k)" by linarith
    then have "expo ?x < 53 + k"
      by (metis pow2_le_iff not_le)
    then show ?thesis by simp
  next
    case False
    then have "expo ?x = - 1022" by (intro expo_subnormal) simp
    with assms(2) show ?thesis by simp
  qed
  then show ?thesis by (rule nearest_on_grid) simp
qed

lemma nearest_pow2:
  assumes "- 1074 \<le> k"
  shows "nearest (pow2 k) = pow2 k"
  using nearest_scaled_int [of 1 k] assms by simp

lemma nearest_grid: "\<exists>m. nearest x = of_int m * pow2 (- 1074)"
proof -
  have "- 1074 \<le> expo x - 52" using expo_range [of x] by simp
  then have "quantum x = 2 ^ nat (expo x - 52 - (- 1074)) * pow2 (- 1074)"
    unfolding quantum_def by (rule pow2_diff_nat)
  then have "nearest x
      = of_int (rne (x / quantum x) * 2 ^ nat (expo x - 52 - (- 1074))) * pow2 (- 1074)"
    by (simp add: nearest_def)
  then show ?thesis ..
qed

text \<open>The difference of two values of the format rounds to a number of its own sign.\<close>

lemma nearest_diff_pos:
  assumes "nearest a = a" and "nearest b = b" and "a < b"
  shows "0 < nearest (b - a)"
proof -
  obtain m where a: "a = of_int m * pow2 (- 1074)"
    using nearest_grid [of a] assms(1) by auto
  obtain n where b: "b = of_int n * pow2 (- 1074)"
    using nearest_grid [of b] assms(2) by auto
  have "of_int m * pow2 (- 1074) < real_of_int n * pow2 (- 1074)"
    using assms(3) a b by simp
  then have "real_of_int m < of_int n"
    by (simp add: mult_less_cancel_right)
  then have "m + 1 \<le> n" by simp
  then have "real_of_int m + 1 \<le> of_int n"
    by (metis of_int_1 of_int_add of_int_le_iff)
  then have "(real_of_int m + 1) * pow2 (- 1074) \<le> of_int n * pow2 (- 1074)"
    by (intro mult_right_mono) simp_all
  then have "pow2 (- 1074) \<le> b - a"
    unfolding a b by (simp add: algebra_simps)
  then have "nearest (pow2 (- 1074)) \<le> nearest (b - a)" by (rule nearest_mono)
  then have "pow2 (- 1074) \<le> nearest (b - a)" by (simp add: nearest_pow2)
  then show ?thesis using pow2_pos [of "- 1074"] by linarith
qed

lemma nearest_idem: "nearest (nearest x) = nearest x"
proof -
  have main: "nearest (nearest x) = nearest x" if x: "0 \<le> x" for x
  proof -
    let ?y = "nearest x"
    have y0: "0 \<le> ?y" using x by (rule nearest_nonneg)
    have grid: "?y = of_int (rne (x / quantum x)) * pow2 (expo x - 52)"
      by (simp add: nearest_def quantum_def)
    show ?thesis
    proof (cases "expo ?y \<le> expo x")
      case True
      then have "expo ?y - 52 \<le> expo x - 52" by simp
      then show ?thesis using grid by (rule nearest_on_grid)
    next
      case False
      then have lt: "expo x < expo ?y" by simp
      then have x1023: "expo x < 1023" using expo_range [of ?y] by simp
      have "- 1022 < expo ?y" using lt expo_range [of x] by simp
      then have "pow2 (- 1022) \<le> \<bar>?y\<bar>"
        using expo_subnormal [of ?y] by force
      then have "pow2 (expo ?y) \<le> \<bar>?y\<bar>" by (rule expo_lower)
      moreover have "pow2 (expo x + 1) \<le> pow2 (expo ?y)" using lt by simp
      moreover have "?y \<le> pow2 (expo x + 1)" using x x1023 by (rule nearest_le_next)
      ultimately have "?y = pow2 (expo x + 1)" using y0 by linarith
      moreover have "- 1074 \<le> expo x + 1" using expo_range [of x] by simp
      ultimately show ?thesis by (simp add: nearest_pow2)
    qed
  qed
  show ?thesis
  proof (cases "0 \<le> x")
    case True
    then show ?thesis by (rule main)
  next
    case False
    then have "nearest (nearest (- x)) = nearest (- x)" by (intro main) simp
    then show ?thesis by (simp add: nearest_minus)
  qed
qed

lemma dle_refl: "d \<noteq> NaN \<Longrightarrow> dle d d"
  by (cases d) simp_all

lemma dle_trans: "dle a b \<Longrightarrow> dle b c \<Longrightarrow> dle a c"
  by (cases a; cases b; cases c) simp_all

lemma dle_not_NaN: "dle a b \<Longrightarrow> a \<noteq> NaN \<and> b \<noteq> NaN"
  by (cases a; cases b) simp_all

lemma dle_total: "a \<noteq> NaN \<Longrightarrow> b \<noteq> NaN \<Longrightarrow> dle a b \<or> dle b a"
  by (cases a; cases b) auto

lemma rnd64_not_NaN [simp]: "rnd64 x \<noteq> NaN"
  by (simp add: rnd64_def Let_def)

lemma rnd64_Fin: "\<bar>nearest x\<bar> < pow2 1024 \<Longrightarrow> rnd64 x = Fin (nearest x)"
  by (auto simp: rnd64_def Let_def)

lemma rnd64_mono:
  assumes "x \<le> y"
  shows "dle (rnd64 x) (rnd64 y)"
  using nearest_mono [OF assms] pow2_pos [of 1024]
  by (auto simp: rnd64_def Let_def)

lemma rnd64_scaled_int:
  assumes "\<bar>n\<bar> < 2 ^ 53" and "- 1074 \<le> k" and "k \<le> 971"
  shows "rnd64 (of_int n * pow2 k) = Fin (of_int n * pow2 k)"
proof -
  have "real_of_int \<bar>n\<bar> < 2 ^ 53"
    using assms(1) by (metis of_int_less_iff of_int_numeral of_int_power)
  then have "real_of_int \<bar>n\<bar> * pow2 k < 2 ^ 53 * pow2 k"
    by (intro mult_strict_right_mono) simp_all
  also have "2 ^ 53 * pow2 k = pow2 53 * pow2 k" by (simp add: pow2_def)
  also have "\<dots> = pow2 (53 + k)" by (rule pow2_add [symmetric])
  also have "\<dots> \<le> pow2 1024" using assms(3) by simp
  finally have "\<bar>of_int n * pow2 k\<bar> < pow2 1024"
    by (simp add: abs_mult)
  then show ?thesis
    by (simp add: rnd64_Fin nearest_scaled_int [OF assms(1,2)])
qed

text \<open>Rounding a real that lies between two values of the format stays between them.\<close>

lemma rnd64_between:
  assumes "rnd64 a = Fin a" and "rnd64 b = Fin b" and "a \<le> x" and "x \<le> b"
  shows "\<exists>v. rnd64 x = Fin v \<and> a \<le> v \<and> v \<le> b"
proof -
  have 1: "dle (Fin a) (rnd64 x)" using rnd64_mono [OF assms(3)] assms(1) by simp
  have 2: "dle (rnd64 x) (Fin b)" using rnd64_mono [OF assms(4)] assms(2) by simp
  from 1 2 show ?thesis by (cases "rnd64 x") simp_all
qed

lemma rnd64_squeeze:
  assumes "rnd64 a = Fin v" and "rnd64 b = Fin v" and "a \<le> x" and "x \<le> b"
  shows "rnd64 x = Fin v"
proof -
  have 1: "dle (Fin v) (rnd64 x)" using rnd64_mono [OF assms(3)] assms(1) by simp
  have 2: "dle (rnd64 x) (Fin v)" using rnd64_mono [OF assms(4)] assms(2) by simp
  from 1 2 show ?thesis by (cases "rnd64 x") simp_all
qed

text \<open>Evaluation at a given binade.\<close>

lemma rnd64_eval:
  assumes "pow2 e \<le> \<bar>x\<bar>" and "\<bar>x\<bar> < pow2 (e + 1)" and "- 1022 \<le> e" and "e \<le> 1022"
  shows "rnd64 x = Fin (of_int (rne (x / pow2 (e - 52))) * pow2 (e - 52))"
proof -
  have e: "e \<le> 1023" using assms(4) by simp
  have n: "nearest x = of_int (rne (x / pow2 (e - 52))) * pow2 (e - 52)"
    using assms(1,2,3) e by (rule nearest_eval)
  have "expo x = e" using assms(1,2,3) e by (rule expo_eq)
  then have "expo x < 1023" using assms(4) by simp
  have "\<bar>nearest x\<bar> \<le> pow2 (e + 1)"
  proof (cases "0 \<le> x")
    case True
    then have "nearest x \<le> pow2 (expo x + 1)" using \<open>expo x < 1023\<close> by (rule nearest_le_next)
    moreover have "0 \<le> nearest x" using True by (rule nearest_nonneg)
    ultimately show ?thesis using \<open>expo x = e\<close> by simp
  next
    case False
    then have "nearest (- x) \<le> pow2 (expo (- x) + 1)"
      using \<open>expo x < 1023\<close> by (intro nearest_le_next) simp_all
    moreover have "0 \<le> nearest (- x)" using False by (intro nearest_nonneg) simp
    ultimately show ?thesis using \<open>expo x = e\<close> by (simp add: nearest_minus)
  qed
  also have "\<dots> < pow2 1024" using assms(4) by (intro pow2_less) simp
  finally show ?thesis by (simp add: rnd64_Fin n)
qed

lemma pow2_minus: "pow2 (- k) = 1 / pow2 k"
  by (simp add: pow2_powr powr_minus inverse_eq_divide)

lemma fsub_Fin [simp]: "fsub (Fin a) (Fin b) = rnd64 (a - b)"
  by (simp add: fsub_def fneg_def)

lemma fneg_Fin [simp]: "fneg (Fin a) = Fin (- a)"
  by (simp add: fneg_def)

lemma fmax_Fin [simp]: "fmax (Fin a) (Fin b) = Fin (max a b)"
  by (simp add: fmax_def max_def)

lemma rnd64_0 [simp]: "rnd64 0 = Fin 0"
  using rnd64_scaled_int [of 0 0] by simp

lemma rnd64_1 [simp]: "rnd64 1 = Fin 1"
  using rnd64_scaled_int [of 1 0] by simp

lemma dle_PInf [simp]: "dle d PInf \<longleftrightarrow> d \<noteq> NaN"
  by (cases d) simp_all

lemma dle_NInf [simp]: "dle NInf d \<longleftrightarrow> d \<noteq> NaN"
  by (cases d) simp_all

lemma rnd64_of_nat:
  assumes "k < 100"
  shows "rnd64 (of_nat k) = Fin (of_nat k)"
proof -
  have "\<bar>int k\<bar> < 2 ^ 53" using assms by simp
  then have "rnd64 (of_int (int k) * pow2 0) = Fin (of_int (int k) * pow2 0)"
    by (rule rnd64_scaled_int) simp_all
  then show ?thesis by simp
qed

lemma rnd64_idem:
  assumes "rnd64 x = Fin s"
  shows "rnd64 s = Fin s"
proof -
  have s: "s = nearest x" and b: "\<bar>nearest x\<bar> < pow2 1024"
    using assms by (auto simp: rnd64_def Let_def split: if_splits)
  have "nearest s = s" unfolding s by (rule nearest_idem)
  then show ?thesis using b s by (simp add: rnd64_Fin)
qed

section \<open>Theorems: the reference runtime\<close>

text \<open>
  The reference text format reads back what it writes, for every value.
\<close>

lemma lt10_cases: "(d::nat) < 10 \<Longrightarrow> d \<in> {0, 1, 2, 3, 4, 5, 6, 7, 8, 9}"
  by auto

lemma digit_val_digit_char: "d < 10 \<Longrightarrow> digit_val (digit_char d) = d"
  by (drule lt10_cases) (auto simp: digit_val_def digit_char_def)

lemma is_digit_digit_char: "d < 10 \<Longrightarrow> is_digit (digit_char d)"
  by (drule lt10_cases) (auto simp: is_digit_def digit_char_def)

lemma dec_digits: "list_all is_digit (dec n)"
  by (induction n rule: dec.induct) (subst dec.simps, simp add: is_digit_digit_char)

lemma dec_not_Nil: "dec n \<noteq> []"
  by (subst dec.simps) simp

lemma undec_snoc: "undec (ds @ [c]) = 10 * undec ds + digit_val c"
  by (simp add: undec_def)

lemma undec_dec: "undec (dec n) = n"
proof (induction n rule: dec.induct)
  case (1 n)
  show ?case
  proof (cases "n < 10")
    case True
    then show ?thesis
      by (subst dec.simps) (simp add: undec_def digit_val_digit_char)
  next
    case False
    then have "undec (dec (n div 10)) = n div 10"
      using 1 by simp
    with False show ?thesis
      by (subst dec.simps) (simp add: undec_snoc digit_val_digit_char)
  qed
qed

lemma not_digit_colon: "\<not> is_digit CHR '':''"
  by (simp add: is_digit_def)

lemma unframe_frame: "unframe (frame s @ r) = Some (s, r)"
proof -
  have all: "\<And>x. x \<in> set (dec (length s)) \<Longrightarrow> is_digit x"
    using dec_digits [of "length s"] by (simp add: list_all_iff)
  have tw: "takeWhile is_digit (dec (length s) @ CHR '':'' # s @ r) = dec (length s)"
    using all by (simp add: takeWhile_append2 not_digit_colon)
  have dw: "dropWhile is_digit (dec (length s) @ CHR '':'' # s @ r) = CHR '':'' # s @ r"
    using all by (simp add: dropWhile_append2 not_digit_colon)
  show ?thesis
    by (simp add: unframe_def frame_def tw dw Let_def dec_not_Nil undec_dec)
qed

lemma frame_not_Nil: "frame s \<noteq> []"
  by (simp add: frame_def)

lemma chunks_frames:
  "length xs \<le> n \<Longrightarrow> chunks n (concat (map frame xs) @ []) = Some xs"
proof (induction xs arbitrary: n)
  case Nil
  then show ?case by simp
next
  case (Cons x xs)
  then obtain m where n: "n = Suc m" and m: "length xs \<le> m"
    by (cases n) auto
  obtain c s where fr: "frame x @ concat (map frame xs) = c # s"
    using frame_not_Nil [of x] by (cases "frame x @ concat (map frame xs)") auto
  have "chunks (Suc m) (frame x @ concat (map frame xs)) =
      map_option ((#) x) (chunks m (concat (map frame xs)))"
    using unframe_frame [of x "concat (map frame xs)"] by (simp add: fr)
  with Cons.IH [OF m] n show ?case by simp
qed

lemma length_concat_frames: "length xs \<le> length (concat (map frame xs))"
proof (induction xs)
  case Nil
  then show ?case by simp
next
  case (Cons x xs)
  have "1 \<le> length (frame x)"
    using frame_not_Nil [of x] by (cases "frame x") auto
  with Cons show ?case by simp
qed

lemma chunks_frames_length:
  "chunks (length (concat (map frame xs))) (concat (map frame xs)) = Some xs"
  using chunks_frames [OF length_concat_frames [of xs]] by simp

lemma length_frame: "length s < length (frame s)"
  by (simp add: frame_def)


lemma those_map_Some:
  "(\<And>x. x \<in> set xs \<Longrightarrow> f x = Some (g x)) \<Longrightarrow> those (map f xs) = Some (map g xs)"
  by (induction xs) simp_all

lemma length_le_concat:
  "x \<in> set xs \<Longrightarrow> length (f x) \<le> length (concat (map f xs))"
  by (induction xs) auto

lemma pairs_flat:
  "pairs (concat (map (\<lambda>kv. [fst kv, g (snd kv)]) kvs)) = Some (map (\<lambda>kv. (fst kv, g (snd kv))) kvs)"
  by (induction kvs) simp_all

lemma concat_frames_obj:
  "concat (map (\<lambda>kv. frame (fst kv) @ frame (g (snd kv))) kvs)
     = concat (map frame (concat (map (\<lambda>kv. [fst kv, g (snd kv)]) kvs)))"
  by (induction kvs) simp_all

lemma ref_parse_fuel_stringify:
  "length (ref_stringify v) \<le> n \<Longrightarrow> ref_parse_fuel n (ref_stringify v) = Some v"
proof (induction v arbitrary: n)
  case JUndefined
  then show ?case by (cases n) simp_all
next
  case JNull
  then show ?case by (cases n) simp_all
next
  case (JBool b)
  then show ?case by (cases n; cases b) simp_all
next
  case (JNum k)
  then show ?case
    by (cases n; cases "k < 0") (simp_all add: dec_digits dec_not_Nil undec_dec)
next
  case (JStr s)
  then show ?case by (cases n) simp_all
next
  case (JArr xs)
  from JArr.prems obtain m where n: "n = Suc m"
    and m: "length (concat (map (\<lambda>x. frame (ref_stringify x)) xs)) \<le> m"
    by (cases n) auto
  have elem: "ref_parse_fuel m (ref_stringify x) = Some x" if "x \<in> set xs" for x
  proof -
    have "length (ref_stringify x) \<le> length (frame (ref_stringify x))"
      using length_frame [of "ref_stringify x"] by simp
    also have "\<dots> \<le> length (concat (map (\<lambda>x. frame (ref_stringify x)) xs))"
      using that by (rule length_le_concat)
    finally show ?thesis
      using m by (intro JArr.IH [OF that]) simp
  qed
  have fr: "concat (map (\<lambda>x. frame (ref_stringify x)) xs)
      = concat (map frame (map ref_stringify xs))"
    by (simp add: comp_def)
  have "chunks (length (concat (map (\<lambda>x. frame (ref_stringify x)) xs)))
      (concat (map (\<lambda>x. frame (ref_stringify x)) xs)) = Some (map ref_stringify xs)"
    unfolding fr by (rule chunks_frames_length)
  moreover have "those (map (ref_parse_fuel m) (map ref_stringify xs)) = Some (map id xs)"
    unfolding map_map by (rule those_map_Some) (simp add: elem)
  ultimately show ?case
    by (simp add: n)
next
  case (JObj kvs)
  let ?body = "concat (map (\<lambda>kv. frame (fst kv) @ frame (ref_stringify (snd kv))) kvs)"
  from JObj.prems obtain m where n: "n = Suc m" and m: "length ?body \<le> m"
    by (cases n) auto
  have elem: "ref_parse_fuel m (ref_stringify (snd kv)) = Some (snd kv)" if "kv \<in> set kvs" for kv
  proof -
    have "length (ref_stringify (snd kv)) \<le> length (frame (ref_stringify (snd kv)))"
      using length_frame [of "ref_stringify (snd kv)"] by simp
    also have "\<dots> \<le> length (frame (fst kv) @ frame (ref_stringify (snd kv)))"
      by simp
    also have "\<dots> \<le> length ?body"
      using that by (rule length_le_concat)
    finally have "length (ref_stringify (snd kv)) \<le> m"
      using m by simp
    moreover have "snd kv \<in> Basic_BNFs.snds kv"
      by (cases kv) simp
    ultimately show ?thesis
      using that by (intro JObj.IH)
  qed
  have "chunks (length ?body) ?body
      = Some (concat (map (\<lambda>kv. [fst kv, ref_stringify (snd kv)]) kvs))"
    unfolding concat_frames_obj by (rule chunks_frames_length)
  moreover have "those (map (\<lambda>kv. map_option (Pair (fst kv)) (ref_parse_fuel m (snd kv)))
      (map (\<lambda>kv. (fst kv, ref_stringify (snd kv))) kvs)) = Some (map id kvs)"
    unfolding map_map by (rule those_map_Some) (simp add: elem)
  ultimately show ?case
    by (simp add: n pairs_flat)
qed

lemma ref_parse_stringify: "ref_parse (ref_stringify v) = Some v"
  by (simp add: ref_parse_def ref_parse_fuel_stringify)

lemma ref_stringify_not_Nil: "ref_stringify v \<noteq> []"
  by (cases v) simp_all

section \<open>Theorems: Momentum Engine\<close>

subsection \<open>An enclosure of \<open>ln 2\<close>\<close>

lemma exp_upper_taylor:
  fixes x :: real
  assumes "0 \<le> x" and "x \<le> 1"
  shows "exp x \<le> (\<Sum>m<n. x ^ m / fact m) + 3 / fact n * x ^ n"
proof -
  obtain t where t: "\<bar>t\<bar> \<le> \<bar>x\<bar>" and e: "exp x = (\<Sum>m<n. x ^ m / fact m) + exp t / fact n * x ^ n"
    using Maclaurin_exp_le [of x n] by blast
  have "exp t \<le> exp 1" using t assms by simp
  also have "\<dots> \<le> 3" by (rule exp_le)
  finally have "exp t / fact n * x ^ n \<le> 3 / fact n * x ^ n"
    using assms by (intro mult_right_mono divide_right_mono) simp_all
  with e show ?thesis by simp
qed

lemma exp_lower_taylor:
  fixes x :: real
  assumes "0 \<le> x"
  shows "(\<Sum>m<n. x ^ m / fact m) \<le> exp x"
proof -
  obtain t where e: "exp x = (\<Sum>m<n. x ^ m / fact m) + exp t / fact n * x ^ n"
    using Maclaurin_exp_le [of x n] by blast
  have "0 \<le> exp t / fact n * x ^ n" using assms by simp
  with e show ?thesis by simp
qed

lemma exp_LN2_le: "exp LN2 \<le> 2"
proof -
  have "exp LN2 \<le> (\<Sum>m<18. LN2 ^ m / fact m) + 3 / fact 18 * LN2 ^ 18"
    by (rule exp_upper_taylor) (simp_all add: LN2_def)
  also have "\<dots> \<le> 2"
    by (simp add: LN2_def lessThan_nat_numeral fact_numeral power_divide)
  finally show ?thesis .
qed

lemma exp_LN2_ge: "2 \<le> exp (LN2 + 1 / 2 ^ 55)"
proof -
  have "2 \<le> (\<Sum>m<18. (LN2 + 1 / 2 ^ 55) ^ m / fact m)"
    by (simp add: LN2_def lessThan_nat_numeral fact_numeral power_divide)
  also have "\<dots> \<le> exp (LN2 + 1 / 2 ^ 55)"
    by (rule exp_lower_taylor) (simp add: LN2_def)
  finally show ?thesis .
qed

lemma LN2_le_ln2: "LN2 \<le> ln 2"
proof -
  have "ln (exp LN2) \<le> ln 2"
    using exp_LN2_le by (subst ln_le_cancel_iff) simp_all
  then show ?thesis by simp
qed

lemma ln2_le_LN2: "ln 2 \<le> LN2 + 1 / 2 ^ 55"
proof -
  have "ln 2 \<le> ln (exp (LN2 + 1 / 2 ^ 55))"
    using exp_LN2_ge by (subst ln_le_cancel_iff) simp_all
  then show ?thesis by simp
qed

lemma exp_minus_split: "exp (- x) = 1 / 2 * exp (ln 2 - (x::real))"
proof -
  have "exp (ln 2 - x) = exp (ln 2) * exp (- x)"
    by (simp add: exp_diff exp_minus field_simps)
  then show ?thesis by simp
qed

lemma exp_neg_lower:
  assumes "x \<le> LN2 + 1 / 2 ^ 53"
  shows "1 / 2 - 1 / 2 ^ 54 \<le> exp (- x)"
proof -
  have "1 + (ln 2 - x) \<le> exp (ln 2 - x)" by (rule exp_ge_add_one_self)
  moreover have "- (1 / 2 ^ 53) \<le> ln 2 - x"
    using assms LN2_le_ln2 by linarith
  ultimately have "1 - 1 / 2 ^ 53 \<le> exp (ln 2 - x)" by linarith
  then show ?thesis
    unfolding exp_minus_split [of x] by simp
qed

lemma exp_neg_upper:
  assumes "LN2 - 1 / 2 ^ 53 \<le> x" and "x \<le> 1"
  shows "exp (- x) \<le> 1 / 2 + 1 / 2 ^ 53"
proof -
  let ?s = "ln 2 - x"
  have "(1::real) / 2 ^ 53 + 1 / 2 ^ 55 = 5 / 2 ^ 55" by simp
  then have s1: "?s \<le> 5 / 2 ^ 55" using assms ln2_le_LN2 by linarith
  show ?thesis
  proof (cases "0 \<le> ?s")
    case True
    then have "exp ?s \<le> 1 + ?s + ?s\<^sup>2"
      using s1 by (intro exp_bound) simp_all
    moreover have "?s\<^sup>2 \<le> (5 / 2 ^ 55)\<^sup>2"
      using True s1 by (intro power_mono) simp_all
    ultimately have "exp ?s \<le> 1 + 5 / 2 ^ 55 + (5 / 2 ^ 55)\<^sup>2"
      using s1 by linarith
    also have "\<dots> \<le> 1 + 2 / 2 ^ 53" by (simp add: power_divide)
    finally show ?thesis
      unfolding exp_minus_split [of x] by simp
  next
    case False
    then have "exp ?s \<le> 1" by simp
    moreover have "(0::real) \<le> 1 / 2 ^ 53" by simp
    ultimately show ?thesis
      unfolding exp_minus_split [of x] by linarith
  qed
qed

subsection \<open>The temporal factor\<close>

lemma LN2_bounds: "69 / 100 \<le> LN2" "LN2 \<le> 7 / 10"
  by (simp_all add: LN2_def)

lemma js_log_2: "math_contract M \<Longrightarrow> js_log M (Fin 2) = Fin LN2"
  by (simp add: math_contract_def js_log_def)

text \<open>The decay constant, for a half-life that keeps the quotient in the normal range.\<close>

lemma decayConstant_bounds:
  assumes "pow2 (- 1000) \<le> h" and "h \<le> pow2 1000"
  shows "\<exists>q. fdiv (Fin LN2) (Fin h) = Fin q \<and> \<bar>q - LN2 / h\<bar> \<le> pow2 (- 53) * (LN2 / h) \<and> 0 < q"
proof -
  define x where "x = LN2 / h"
  have h0: "0 < h" using assms(1) pow2_pos [of "- 1000"] by linarith
  have x0: "0 < x" using h0 LN2_bounds by (simp add: x_def)
  have "pow2 (- 1001) * h \<le> pow2 (- 1001) * pow2 1000"
    using assms(2) by (intro mult_left_mono) simp_all
  also have "\<dots> = pow2 (- 1001 + 1000)" by (rule pow2_add [symmetric])
  also have "\<dots> = 1 / 2" by (simp add: pow2_def)
  also have "\<dots> \<le> LN2" using LN2_bounds by simp
  finally have lo: "pow2 (- 1001) \<le> x"
    using h0 by (simp add: pos_le_divide_eq x_def)
  have "pow2 (- 1022) \<le> pow2 (- 1001)" by simp
  moreover have ax: "\<bar>x\<bar> = x" using x0 by (rule abs_of_pos)
  ultimately have norm: "pow2 (- 1022) \<le> \<bar>x\<bar>" using lo by linarith
  have "LN2 \<le> 1" using LN2_bounds by simp
  also have "1 = pow2 (1000 + (- 1000))" by simp
  also have "\<dots> = pow2 1000 * pow2 (- 1000)" by (rule pow2_add)
  also have "\<dots> \<le> pow2 1000 * h"
    using assms(1) by (intro mult_left_mono) simp_all
  finally have hi: "x \<le> pow2 1000"
    using h0 by (simp add: pos_divide_le_eq x_def)
  have err: "\<bar>nearest x - x\<bar> \<le> pow2 (- 53) * x"
    using nearest_rel_error [OF norm] unfolding ax .
  have "pow2 (- 53) \<le> 1 / 2" by (simp add: pow2_def)
  then have "pow2 (- 53) * x \<le> 1 / 2 * x"
    using x0 by (intro mult_right_mono) simp_all
  then have small: "pow2 (- 53) * x \<le> x / 2" by simp
  have pos: "0 < nearest x" using err small x0 by linarith
  have "\<bar>nearest x\<bar> \<le> 2 * x" using err small x0 by linarith
  also have "\<dots> \<le> 2 * pow2 1000" using hi by simp
  also have "\<dots> = pow2 1 * pow2 1000" by (simp add: pow2_def)
  also have "\<dots> = pow2 (1 + 1000)" by (rule pow2_add [symmetric])
  also have "\<dots> < pow2 1024" by (rule pow2_less) simp
  finally have "rnd64 x = Fin (nearest x)" by (rule rnd64_Fin)
  then have "fdiv (Fin LN2) (Fin h) = Fin (nearest x)" using h0 by (simp add: x_def)
  with err pos show ?thesis unfolding x_def by blast
qed

lemma double_LN2_lo: "rnd64 (- (LN2 + 1 / 2 ^ 53)) = Fin (- (LN2 + 1 / 2 ^ 53))"
proof -
  have "- (LN2 + 1 / 2 ^ 53) = of_int (- 6243314768165360) * pow2 (- 53)"
    by (simp add: LN2_def pow2_def)
  then show ?thesis
    by (simp only:) (rule rnd64_scaled_int, simp_all)
qed

lemma double_LN2_hi: "rnd64 (- (LN2 - 1 / 2 ^ 53)) = Fin (- (LN2 - 1 / 2 ^ 53))"
proof -
  have "- (LN2 - 1 / 2 ^ 53) = of_int (- 6243314768165358) * pow2 (- 53)"
    by (simp add: LN2_def pow2_def)
  then show ?thesis
    by (simp only:) (rule rnd64_scaled_int, simp_all)
qed

lemma double_half_lo: "rnd64 (1 / 2 - 1 / 2 ^ 54) = Fin (1 / 2 - 1 / 2 ^ 54)"
proof -
  have "(1 / 2 - 1 / 2 ^ 54 :: real) = of_int (2 ^ 53 - 1) * pow2 (- 54)"
    by (simp add: pow2_def)
  then show ?thesis
    by (simp only:) (rule rnd64_scaled_int, simp_all)
qed

lemma double_half_hi: "rnd64 (1 / 2 + 1 / 2 ^ 53) = Fin (1 / 2 + 1 / 2 ^ 53)"
proof -
  have "(1 / 2 + 1 / 2 ^ 53 :: real) = of_int (2 ^ 52 + 1) * pow2 (- 53)"
    by (simp add: pow2_def)
  then show ?thesis
    by (simp only:) (rule rnd64_scaled_int, simp_all)
qed

text \<open>At an elapsed time equal to the half-life the argument of \<open>Math.exp\<close> is within one
  unit in the last place of \<open>-LN2\<close>.\<close>

lemma exponent_at_halfLife:
  assumes "pow2 (- 1000) \<le> h" and "h \<le> pow2 1000"
  shows "\<exists>y. fmul (fneg (fdiv (Fin LN2) (Fin h))) (Fin h) = Fin y
            \<and> - (LN2 + 1 / 2 ^ 53) \<le> y \<and> y \<le> - (LN2 - 1 / 2 ^ 53)"
proof -
  obtain q where q: "fdiv (Fin LN2) (Fin h) = Fin q"
    and err: "\<bar>q - LN2 / h\<bar> \<le> pow2 (- 53) * (LN2 / h)"
    using decayConstant_bounds [OF assms] by blast
  have h0: "0 < h" using assms(1) pow2_pos [of "- 1000"] by linarith
  have "\<bar>q - LN2 / h\<bar> * h \<le> pow2 (- 53) * (LN2 / h) * h"
    using err h0 by (intro mult_right_mono) simp_all
  moreover have "\<bar>q - LN2 / h\<bar> * h = \<bar>q * h - LN2\<bar>"
  proof -
    have "\<bar>q - LN2 / h\<bar> * h = \<bar>(q - LN2 / h) * h\<bar>"
      using h0 by (simp add: abs_mult)
    also have "(q - LN2 / h) * h = q * h - LN2"
      using h0 by (simp add: algebra_simps)
    finally show ?thesis .
  qed
  moreover have "pow2 (- 53) * (LN2 / h) * h = pow2 (- 53) * LN2"
    using h0 by simp
  moreover have "pow2 (- 53) * LN2 \<le> 1 / 2 ^ 53"
    using LN2_bounds by (simp add: pow2_def)
  ultimately have "\<bar>q * h - LN2\<bar> \<le> 1 / 2 ^ 53" by linarith
  then have b: "- (LN2 + 1 / 2 ^ 53) \<le> - q * h" "- q * h \<le> - (LN2 - 1 / 2 ^ 53)"
    by linarith+
  from rnd64_between [OF double_LN2_lo double_LN2_hi b]
  show ?thesis unfolding q by simp
qed

lemma faithful_not_NaN: "exp_faithful M \<Longrightarrow> dle (Fin 0) (math_exp M x)"
proof -
  assume "exp_faithful M"
  moreover have "rnd64 0 = Fin 0 \<and> 0 \<le> exp x" by simp
  ultimately show ?thesis unfolding exp_faithful_def by blast
qed

lemma faithful_between:
  assumes "exp_faithful M" and "rnd64 a = Fin a" and "rnd64 b = Fin b"
    and "a \<le> exp x" and "exp x \<le> b"
  shows "\<exists>v. math_exp M x = Fin v \<and> a \<le> v \<and> v \<le> b"
proof -
  have 1: "dle (Fin a) (math_exp M x)"
    using assms(1,2,4) unfolding exp_faithful_def by blast
  have 2: "dle (math_exp M x) (Fin b)"
    using assms(1,3,5) unfolding exp_faithful_def by blast
  from 1 2 show ?thesis by (cases "math_exp M x") simp_all
qed

lemma temporal_near_half:
  assumes M: "math_contract M"
    and h: "pow2 (- 1000) \<le> halfLife cfg" "halfLife cfg \<le> pow2 1000"
    and el: "fsub (Fin now) (Fin (lastAccess c)) = Fin (halfLife cfg)"
    and m: "minMomentum cfg \<le> 1 / 2"
  shows "\<exists>v. calculateTemporalMomentum M cfg now c = Fin v \<and> \<bar>v - 1 / 2\<bar> \<le> 1 / 2 ^ 53"
proof -
  obtain y where y: "fmul (fneg (fdiv (Fin LN2) (Fin (halfLife cfg)))) (Fin (halfLife cfg)) = Fin y"
    and lo: "- (LN2 + 1 / 2 ^ 53) \<le> y" and hi: "y \<le> - (LN2 - 1 / 2 ^ 53)"
    using exponent_at_halfLife [OF h] by blast
  have y0: "y \<noteq> 0" using hi LN2_bounds by auto
  have f: "exp_faithful M" using M by (simp add: math_contract_def)
  have 1: "1 / 2 - 1 / 2 ^ 54 \<le> exp y"
    using exp_neg_lower [of "- y"] lo by simp
  have 2: "exp y \<le> 1 / 2 + 1 / 2 ^ 53"
    using exp_neg_upper [of "- y"] lo hi LN2_bounds by simp
  obtain v where v: "math_exp M y = Fin v" and v1: "1 / 2 - 1 / 2 ^ 54 \<le> v"
    and v2: "v \<le> 1 / 2 + 1 / 2 ^ 53"
    using faithful_between [OF f double_half_lo double_half_hi 1 2] by blast
  have "calculateTemporalMomentum M cfg now c = Fin (max (minMomentum cfg) v)"
    using el y y0 v
    by (simp add: calculateTemporalMomentum_def js_log_2 [OF M] js_exp_def del: fsub_Fin)
  moreover have "\<bar>max (minMomentum cfg) v - 1 / 2\<bar> \<le> 1 / 2 ^ 53"
  proof -
    have "(1::real) / 2 ^ 54 \<le> 1 / 2 ^ 53" by simp
    then show ?thesis using v1 v2 m by linarith
  qed
  ultimately show ?thesis by blast
qed

lemma fmul_neg_antitone:
  assumes "0 < q" and "dle a b"
  shows "dle (fmul (Fin (- q)) b) (fmul (Fin (- q)) a)"
proof -
  have "- q * y \<le> - q * x" if "x \<le> y" for x y
    using that assms(1) by simp
  then have "dle (rnd64 (- q * y)) (rnd64 (- q * x))" if "x \<le> y" for x y
    using that by (intro rnd64_mono) blast
  then show ?thesis
    using assms by (cases a; cases b) simp_all
qed

lemma js_exp_mono:
  assumes "exp_faithful M" and "exp_monotone M" and "dle a b"
  shows "dle (js_exp M a) (js_exp M b)"
proof -
  have nn: "math_exp M x \<noteq> NaN" for x
    using faithful_not_NaN [OF assms(1), of x] by (cases "math_exp M x") simp_all
  have lo: "dle (Fin 0) (math_exp M x)" for x
    by (rule faithful_not_NaN [OF assms(1)])
  have ge1: "dle (Fin 1) (math_exp M x)" if "0 \<le> x" for x
  proof -
    have "rnd64 1 = Fin 1 \<and> 1 \<le> exp x" using that by simp
    then show ?thesis using assms(1) unfolding exp_faithful_def by blast
  qed
  have le1: "dle (math_exp M x) (Fin 1)" if "x \<le> 0" for x
  proof -
    have "rnd64 1 = Fin 1 \<and> exp x \<le> 1" using that by simp
    then show ?thesis using assms(1) unfolding exp_faithful_def by blast
  qed
  have mono: "dle (math_exp M x) (math_exp M y)" if "x \<le> y" for x y
    using that assms(2) unfolding exp_monotone_def by blast
  show ?thesis
    using assms(3) nn lo ge1 le1 mono
    by (cases a; cases b) (auto simp: js_exp_def)
qed

lemma fmax_mono:
  assumes "dle a b"
  shows "dle (fmax (Fin m) a) (fmax (Fin m) b)"
  using assms by (cases a; cases b) (auto simp: fmax_def)

lemma temporal_antimono:
  assumes M: "math_contract M"
    and h: "pow2 (- 1000) \<le> halfLife cfg" "halfLife cfg \<le> pow2 1000"
    and n: "now \<le> now'"
  shows "dle (calculateTemporalMomentum M cfg now' c) (calculateTemporalMomentum M cfg now c)"
proof -
  obtain q where q: "fdiv (Fin LN2) (Fin (halfLife cfg)) = Fin q" and q0: "0 < q"
    using decayConstant_bounds [OF h] by blast
  have f: "exp_faithful M" and m: "exp_monotone M"
    using M by (simp_all add: math_contract_def)
  have "dle (rnd64 (now - lastAccess c)) (rnd64 (now' - lastAccess c))"
    using n by (intro rnd64_mono) simp
  then have "dle (fmul (Fin (- q)) (rnd64 (now' - lastAccess c)))
      (fmul (Fin (- q)) (rnd64 (now - lastAccess c)))"
    using q0 by (intro fmul_neg_antitone)
  then have "dle (js_exp M (fmul (Fin (- q)) (rnd64 (now' - lastAccess c))))
      (js_exp M (fmul (Fin (- q)) (rnd64 (now - lastAccess c))))"
    by (rule js_exp_mono [OF f m])
  then show ?thesis
    unfolding calculateTemporalMomentum_def Let_def js_log_2 [OF M] q
    by (simp add: fmax_mono)
qed

lemma exp_underflow: "exp (- 750) \<le> pow2 (- 1074)"
proof -
  have "ln 2 \<le> LN2 + 1 / 2 ^ 55" by (rule ln2_le_LN2)
  also have "\<dots> \<le> 750 / 1074" by (simp add: LN2_def)
  finally have "1074 * ln 2 \<le> (750::real)" by simp
  then have "exp (- 750) \<le> exp (- 1074 * ln (2::real))" by simp
  also have "\<dots> = 2 powr (- 1074)" by (simp add: powr_def)
  also have "\<dots> = pow2 (- 1074)" by (simp add: pow2_powr)
  finally show ?thesis .
qed

lemma double_tiny: "rnd64 (pow2 (- 1074)) = Fin (pow2 (- 1074))"
  using rnd64_scaled_int [of 1 "- 1074"] by simp

lemma double_m750: "rnd64 (- 750) = Fin (- 750)"
  using rnd64_scaled_int [of "- 750" 0] by simp

lemma temporal_floor:
  assumes M: "math_contract M"
    and h: "pow2 (- 1000) \<le> halfLife cfg" "halfLife cfg \<le> pow2 1000"
    and m: "pow2 (- 1074) \<le> minMomentum cfg"
    and el: "1100 * halfLife cfg \<le> now - lastAccess c"
  shows "calculateTemporalMomentum M cfg now c = Fin (minMomentum cfg)"
proof -
  define hl where "hl = halfLife cfg"
  define t where "t = now - lastAccess c"
  obtain q where q: "fdiv (Fin LN2) (Fin hl) = Fin q"
    and err: "\<bar>q - LN2 / hl\<bar> \<le> pow2 (- 53) * (LN2 / hl)" and q0: "0 < q"
    using decayConstant_bounds [OF h] unfolding hl_def by blast
  have f: "exp_faithful M" and mo: "exp_monotone M"
    using M by (simp_all add: math_contract_def)
  have h0: "0 < hl" using h(1) pow2_pos [of "- 1000"] unfolding hl_def by linarith
  have ts: "dle (Fin (1099 * hl)) (rnd64 t)"
  proof -
    define x where "x = 1100 * hl"
    have x0: "0 < x" using h0 by (simp add: x_def)
    have ax: "\<bar>x\<bar> = x" using x0 by (rule abs_of_pos)
    have "pow2 (- 1022) \<le> pow2 (- 1000)" by simp
    also have "\<dots> \<le> hl" using h(1) by (simp add: hl_def)
    also have "\<dots> \<le> x" using h0 by (simp add: x_def)
    finally have "pow2 (- 1022) \<le> \<bar>x\<bar>" unfolding ax .
    then have err: "\<bar>nearest x - x\<bar> \<le> pow2 (- 53) * x"
      using nearest_rel_error [of x] unfolding ax by simp
    have "pow2 (- 53) \<le> 1 / 1100" by (simp add: pow2_def)
    then have "pow2 (- 53) * x \<le> 1 / 1100 * x"
      using x0 by (intro mult_right_mono) simp_all
    then have "pow2 (- 53) * x \<le> hl" by (simp add: x_def)
    with err have ge: "1099 * hl \<le> nearest x" unfolding x_def by linarith
    have "dle (rnd64 x) (rnd64 t)"
      using el unfolding x_def t_def hl_def by (rule rnd64_mono)
    moreover have "dle (Fin (1099 * hl)) (rnd64 x)"
      using ge h0 pow2_pos [of 1024] by (auto simp: rnd64_def Let_def)
    ultimately show ?thesis by (rule dle_trans [rotated])
  qed
  have prod: "dle (fmul (Fin (- q)) (rnd64 t)) (Fin (- 750))"
  proof -
    have "dle (fmul (Fin (- q)) (rnd64 t)) (fmul (Fin (- q)) (Fin (1099 * hl)))"
      using q0 ts by (rule fmul_neg_antitone)
    moreover have "dle (fmul (Fin (- q)) (Fin (1099 * hl))) (Fin (- 750))"
    proof -
      define y where "y = LN2 / hl"
      have y0: "0 < y" using h0 LN2_bounds by (simp add: y_def)
      have "pow2 (- 53) \<le> 1 / 1000" by (simp add: pow2_def)
      then have "pow2 (- 53) * y \<le> 1 / 1000 * y"
        using y0 by (intro mult_right_mono) simp_all
      with err have "999 / 1000 * y \<le> q" unfolding y_def by linarith
      then have "999 / 1000 * y * (1099 * hl) \<le> q * (1099 * hl)"
        using h0 by (intro mult_right_mono) simp_all
      moreover have "999 / 1000 * y * (1099 * hl) = 999 / 1000 * 1099 * LN2"
        using h0 by (simp add: y_def)
      moreover have "750 \<le> 999 / 1000 * 1099 * LN2"
        by (simp add: LN2_def)
      ultimately have "- q * (1099 * hl) \<le> - 750" by linarith
      then have "dle (rnd64 (- q * (1099 * hl))) (rnd64 (- 750))" by (rule rnd64_mono)
      then show ?thesis by (simp add: double_m750)
    qed
    ultimately show ?thesis by (rule dle_trans)
  qed
  have "dle (js_exp M (fmul (Fin (- q)) (rnd64 t))) (js_exp M (Fin (- 750)))"
    using prod by (rule js_exp_mono [OF f mo])
  moreover have "dle (js_exp M (Fin (- 750))) (Fin (pow2 (- 1074)))"
  proof -
    have "rnd64 (pow2 (- 1074)) = Fin (pow2 (- 1074)) \<and> exp (- 750) \<le> pow2 (- 1074)"
      using double_tiny exp_underflow by simp
    then have "dle (math_exp M (- 750)) (Fin (pow2 (- 1074)))"
      using f unfolding exp_faithful_def by blast
    then show ?thesis by (simp add: js_exp_def)
  qed
  ultimately have up: "dle (js_exp M (fmul (Fin (- q)) (rnd64 t))) (Fin (pow2 (- 1074)))"
    by (rule dle_trans)
  have "fmul (Fin (- q)) (rnd64 t) \<noteq> NaN"
    using prod by (cases "fmul (Fin (- q)) (rnd64 t)") simp_all
  then have "dle NInf (fmul (Fin (- q)) (rnd64 t))" by simp
  then have "dle (js_exp M NInf) (js_exp M (fmul (Fin (- q)) (rnd64 t)))"
    by (rule js_exp_mono [OF f mo])
  then have lo: "dle (Fin 0) (js_exp M (fmul (Fin (- q)) (rnd64 t)))"
    by (simp add: js_exp_def)
  obtain v where v: "js_exp M (fmul (Fin (- q)) (rnd64 t)) = Fin v"
    and "0 \<le> v" and "v \<le> pow2 (- 1074)"
    using lo up by (cases "js_exp M (fmul (Fin (- q)) (rnd64 t))") simp_all
  then have "max (minMomentum cfg) v = minMomentum cfg" using m by simp
  then show ?thesis
    using v unfolding calculateTemporalMomentum_def Let_def js_log_2 [OF M] q [unfolded hl_def]
    by (simp add: t_def)
qed

lemma double_LN2: "rnd64 LN2 = Fin LN2"
proof -
  have "rnd64 (of_int 6243314768165359 * pow2 (- 53)) = Fin (of_int 6243314768165359 * pow2 (- 53))"
    by (rule rnd64_scaled_int) simp_all
  then show ?thesis
    by (simp add: LN2_def pow2_def)
qed

lemma ref_log_2: "rnd64 (ln 2) = Fin LN2"
proof (rule rnd64_squeeze [OF double_LN2 _ LN2_le_ln2 ln2_le_LN2])
  show "rnd64 (LN2 + 1 / 2 ^ 55) = Fin LN2"
    by (subst rnd64_eval [of "- 1"]) (simp_all add: LN2_def pow2_def rne_def Let_def)
qed

lemma ref_math_contract: "math_contract ref_math"
proof -
  have "exp_faithful ref_math"
    unfolding exp_faithful_def ref_math_def
    by (auto dest: rnd64_mono)
  moreover have "exp_monotone ref_math"
    unfolding exp_monotone_def ref_math_def
    by (simp add: rnd64_mono)
  moreover have "math_log ref_math 2 = Fin LN2"
    by (simp add: ref_math_def ref_log_2)
  ultimately show ?thesis by (simp add: math_contract_def)
qed

text \<open>The correctly rounded exponential at \<open>-LN2\<close> and one unit in the last place below.\<close>

lemma ref_exp_LN2: "rnd64 (exp (- LN2)) = Fin (1 / 2)"
proof (rule rnd64_squeeze)
  show "rnd64 (1 / 2) = Fin (1 / 2)"
    using rnd64_scaled_int [of 1 "- 1"] by (simp add: pow2_def)
  show "rnd64 (1 / 2 + 1 / 2 ^ 55) = Fin (1 / 2)"
    by (subst rnd64_eval [of "- 1"]) (simp_all add: pow2_def rne_def Let_def)
  have s0: "0 \<le> ln 2 - LN2" using LN2_le_ln2 by simp
  have s1: "ln 2 - LN2 \<le> 1 / 2 ^ 55" using ln2_le_LN2 by simp
  show "1 / 2 \<le> exp (- LN2)"
    unfolding exp_minus_split [of LN2] using s0 by simp
  have "exp (ln 2 - LN2) \<le> 1 + (ln 2 - LN2) + (ln 2 - LN2)\<^sup>2"
    using s0 s1 by (intro exp_bound) simp_all
  moreover have "(ln 2 - LN2)\<^sup>2 \<le> (1 / 2 ^ 55)\<^sup>2"
    using s0 s1 by (intro power_mono) simp_all
  moreover have "(1::real) + 1 / 2 ^ 55 + (1 / 2 ^ 55)\<^sup>2 \<le> 1 + 2 / 2 ^ 55"
    by (simp add: power_divide)
  ultimately have "exp (ln 2 - LN2) \<le> 1 + 2 / 2 ^ 55" using s1 by linarith
  then show "exp (- LN2) \<le> 1 / 2 + 1 / 2 ^ 55"
    unfolding exp_minus_split [of LN2] by simp
qed

lemma ref_exp_LN2_ulp: "rnd64 (exp (- (LN2 + 1 / 2 ^ 53))) = Fin (1 / 2 - 1 / 2 ^ 54)"
proof (rule rnd64_squeeze)
  show "rnd64 (1 / 2 - 1 / 2 ^ 54) = Fin (1 / 2 - 1 / 2 ^ 54)"
    by (rule double_half_lo)
  show "rnd64 (2 ^ 54 / (2 ^ 55 + 3)) = Fin (1 / 2 - 1 / 2 ^ 54)"
    by (subst rnd64_eval [of "- 2"]) (simp_all add: pow2_def rne_def Let_def)
  show "1 / 2 - 1 / 2 ^ 54 \<le> exp (- (LN2 + 1 / 2 ^ 53))"
    by (rule exp_neg_lower) simp
  define t where "t = LN2 + 1 / 2 ^ 53 - ln 2"
  have "(1::real) / 2 ^ 53 - 1 / 2 ^ 55 = 3 / 2 ^ 55" by simp
  then have t: "3 / 2 ^ 55 \<le> t" using ln2_le_LN2 unfolding t_def by linarith
  have "1 + t \<le> exp t" by (rule exp_ge_add_one_self)
  with t have "1 + 3 / 2 ^ 55 \<le> exp t" by linarith
  then have "inverse (exp t) \<le> inverse (1 + 3 / 2 ^ 55)"
    by (intro le_imp_inverse_le) simp_all
  moreover have "ln 2 - (LN2 + 1 / 2 ^ 53) = - t" by (simp add: t_def)
  ultimately have "exp (ln 2 - (LN2 + 1 / 2 ^ 53)) \<le> inverse (1 + 3 / 2 ^ 55)"
    by (simp only: exp_minus)
  then have "1 / 2 * exp (ln 2 - (LN2 + 1 / 2 ^ 53)) \<le> 1 / 2 * inverse (1 + 3 / 2 ^ 55)"
    by (intro mult_left_mono) simp_all
  also have "\<dots> = 2 ^ 54 / (2 ^ 55 + 3)" by simp
  finally show "exp (- (LN2 + 1 / 2 ^ 53)) \<le> 2 ^ 54 / (2 ^ 55 + 3)"
    unfolding exp_minus_split [of "LN2 + 1 / 2 ^ 53"] .
qed

lemma ref_simps_math [simp]:
  "math_exp ref_math = (\<lambda>x. rnd64 (exp x))"
  "math_log ref_math = (\<lambda>x. rnd64 (ln x))"
  by (simp_all add: ref_math_def)

lemma ref_js_log_2: "js_log ref_math (Fin 2) = Fin LN2"
  by (simp add: js_log_def ref_log_2)

lemma temporal_default_half:
  "calculateTemporalMomentum ref_math sample_engine_config 31000
     \<lparr>lastAccess = 1000, accessCount = 0, state = Map.empty\<rparr> = Fin (1 / 2)"
proof -
  have 1: "fsub (Fin 31000) (Fin 1000) = Fin 30000"
    using rnd64_scaled_int [of 30000 0] by simp
  have 2: "fdiv (Fin LN2) (Fin 30000) = Fin (6819364610774749 / 2 ^ 68)"
    unfolding fdiv.simps
    by (subst rnd64_eval [of "- 16"]) (simp_all add: LN2_def pow2_def rne_def Let_def)
  have 3: "fmul (fneg (Fin (6819364610774749 / 2 ^ 68))) (Fin 30000) = Fin (- LN2)"
    unfolding fneg_Fin fmul.simps
    by (subst rnd64_eval [of "- 1"]) (simp_all add: LN2_def pow2_def rne_def Let_def)
  have 4: "js_exp ref_math (Fin (- LN2)) = Fin (1 / 2)"
    using LN2_bounds by (simp add: js_exp_def ref_exp_LN2)
  have 5: "fmax (Fin (3602879701896397 / 2 ^ 55)) (Fin (1 / 2)) = Fin (1 / 2)" by simp
  have c: "halfLife sample_engine_config = 30000" "minMomentum sample_engine_config = 3602879701896397 / 2 ^ 55"
    by (simp_all add: sample_engine_config_def default_engine_config_def)
  show ?thesis
    unfolding calculateTemporalMomentum_def Let_def
    by (simp only: c Context.simps ref_js_log_2 1 2 3 4 5)
qed

lemma temporal_at_11:
  "calculateTemporalMomentum ref_math (sample_engine_config\<lparr>halfLife := 11\<rparr>) 11
     \<lparr>lastAccess = 0, accessCount = 0, state = Map.empty\<rparr> = Fin (1 / 2 - 1 / 2 ^ 54)"
proof -
  have 1: "fsub (Fin 11) (Fin 0) = Fin 11"
    using rnd64_scaled_int [of 11 0] by simp
  have 2: "fdiv (Fin LN2) (Fin 11) = Fin (1135148139666429 / 2 ^ 54)"
    unfolding fdiv.simps
    by (subst rnd64_eval [of "- 4"]) (simp_all add: LN2_def pow2_def rne_def Let_def)
  have 3: "fmul (fneg (Fin (1135148139666429 / 2 ^ 54))) (Fin 11) = Fin (- (LN2 + 1 / 2 ^ 53))"
    unfolding fneg_Fin fmul.simps
    by (subst rnd64_eval [of "- 1"]) (simp_all add: LN2_def pow2_def rne_def Let_def)
  have "- (LN2 + 1 / 2 ^ 53) \<noteq> 0" using LN2_bounds by simp
  then have 4: "js_exp ref_math (Fin (- (LN2 + 1 / 2 ^ 53))) = Fin (1 / 2 - 1 / 2 ^ 54)"
    unfolding js_exp_def by (simp only: double.case if_False ref_simps_math ref_exp_LN2_ulp)
  have 5: "fmax (Fin (3602879701896397 / 2 ^ 55)) (Fin (1 / 2 - 1 / 2 ^ 54)) = Fin (1 / 2 - 1 / 2 ^ 54)" by simp
  have c: "halfLife (sample_engine_config\<lparr>halfLife := 11\<rparr>) = 11"
    "minMomentum (sample_engine_config\<lparr>halfLife := 11\<rparr>) = 3602879701896397 / 2 ^ 55"
    by (simp_all add: sample_engine_config_def default_engine_config_def)
  show ?thesis
    unfolding calculateTemporalMomentum_def Let_def
    by (simp only: c Context.simps ref_js_log_2 1 2 3 4 5)
qed

text \<open>
  C2, as the code has it. Take a \<open>Math\<close> library whose \<open>exp\<close> is faithful and monotone
  and whose \<open>Math.log(2)\<close> is \<open>0.6931471805599453\<close>, a half-life between \<open>2^-1000\<close> and
  \<open>2^1000\<close>, and a positive floor \<open>minMomentum\<close> (at least \<open>2^-1074\<close>, as every positive
  value of the format is). The temporal factor is
  \<open>Math.max(minMomentum, Math.exp(-(Math.log(2) / halfLife) * (now - lastAccess)))\<close> with
  every operation rounded to binary64. When the elapsed time \<open>now - lastAccess\<close> equals
  \<open>halfLife\<close> (and \<open>minMomentum \<le> 1/2\<close>) it is within \<open>2^-53\<close> of \<open>1/2\<close>; it does not
  increase as \<open>now\<close> grows; and from an elapsed time of \<open>1100\<close> half-lives on it equals
  \<open>minMomentum\<close>.
\<close>

theorem temporal_momentum_decay:
  assumes "math_contract M"
    and "pow2 (- 1000) \<le> halfLife cfg" and "halfLife cfg \<le> pow2 1000"
    and "pow2 (- 1074) \<le> minMomentum cfg"
  shows "calculateTemporalMomentum M cfg now c =
           fmax (Fin (minMomentum cfg))
             (js_exp M (fmul (fneg (fdiv (js_log M (Fin 2)) (Fin (halfLife cfg))))
                          (fsub (Fin now) (Fin (lastAccess c)))))
       \<and> (fsub (Fin now) (Fin (lastAccess c)) = Fin (halfLife cfg) \<and> minMomentum cfg \<le> 1 / 2
            \<longrightarrow> (\<exists>v. calculateTemporalMomentum M cfg now c = Fin v
                      \<and> \<bar>v - 1 / 2\<bar> \<le> 1 / 2 ^ 53))
       \<and> (\<forall>now'. now \<le> now' \<longrightarrow>
            dle (calculateTemporalMomentum M cfg now' c) (calculateTemporalMomentum M cfg now c))
       \<and> (\<forall>now'. 1100 * halfLife cfg \<le> now' - lastAccess c \<longrightarrow>
            calculateTemporalMomentum M cfg now' c = Fin (minMomentum cfg))"
proof (intro conjI impI allI)
  show "calculateTemporalMomentum M cfg now c =
      fmax (Fin (minMomentum cfg))
        (js_exp M (fmul (fneg (fdiv (js_log M (Fin 2)) (Fin (halfLife cfg))))
                     (fsub (Fin now) (Fin (lastAccess c)))))"
    by (simp only: calculateTemporalMomentum_def Let_def)
next
  assume "fsub (Fin now) (Fin (lastAccess c)) = Fin (halfLife cfg) \<and> minMomentum cfg \<le> 1 / 2"
  then show "\<exists>v. calculateTemporalMomentum M cfg now c = Fin v \<and> \<bar>v - 1 / 2\<bar> \<le> 1 / 2 ^ 53"
    using assms(1,2,3) by (intro temporal_near_half) simp_all
next
  fix now'
  assume "now \<le> now'"
  with assms(1,2,3)
  show "dle (calculateTemporalMomentum M cfg now' c) (calculateTemporalMomentum M cfg now c)"
    by (rule temporal_antimono)
next
  fix now'
  assume "1100 * halfLife cfg \<le> now' - lastAccess c"
  with assms show "calculateTemporalMomentum M cfg now' c = Fin (minMomentum cfg)"
    by (rule temporal_floor)
qed

theorem temporal_momentum_decay_witness:
  "math_contract ref_math
   \<and> pow2 (- 1000) \<le> halfLife sample_engine_config
   \<and> halfLife sample_engine_config \<le> pow2 1000
   \<and> pow2 (- 1074) \<le> minMomentum sample_engine_config
   \<and> fsub (Fin 31000) (Fin 1000) = Fin (halfLife sample_engine_config)
   \<and> (\<exists>v. calculateTemporalMomentum ref_math sample_engine_config 31000
              \<lparr>lastAccess = 1000, accessCount = 0, state = Map.empty\<rparr> = Fin v
          \<and> \<bar>v - 1 / 2\<bar> \<le> 1 / 2 ^ 53)
   \<and> dle (calculateTemporalMomentum ref_math sample_engine_config 61000
             \<lparr>lastAccess = 1000, accessCount = 0, state = Map.empty\<rparr>)
          (calculateTemporalMomentum ref_math sample_engine_config 31000
             \<lparr>lastAccess = 1000, accessCount = 0, state = Map.empty\<rparr>)
   \<and> calculateTemporalMomentum ref_math sample_engine_config 33001000
        \<lparr>lastAccess = 1000, accessCount = 0, state = Map.empty\<rparr> = Fin (3602879701896397 / 2 ^ 55)"
proof -
  let ?c = "\<lparr>lastAccess = 1000, accessCount = 0, state = Map.empty\<rparr> :: Context"
  have e: "halfLife sample_engine_config = 30000"
      "minMomentum sample_engine_config = 3602879701896397 / 2 ^ 55"
    by (simp_all add: sample_engine_config_def default_engine_config_def)
  have 1: "math_contract ref_math" by (rule ref_math_contract)
  have 2: "pow2 (- 1000) \<le> halfLife sample_engine_config"
    unfolding e using pow2_mono [of "- 1000" 0] by simp
  have 3: "halfLife sample_engine_config \<le> pow2 1000"
  proof -
    have "(30000::real) \<le> pow2 15" by (simp add: pow2_def)
    also have "\<dots> \<le> pow2 1000" by simp
    finally show ?thesis unfolding e .
  qed
  have 4: "pow2 (- 1074) \<le> minMomentum sample_engine_config"
  proof -
    have "pow2 (- 1074) \<le> pow2 (- 4)" by simp
    also have "\<dots> \<le> 3602879701896397 / 2 ^ 55" by (simp add: pow2_def)
    finally show ?thesis unfolding e .
  qed
  have 5: "fsub (Fin 31000) (Fin (lastAccess ?c)) = Fin (halfLife sample_engine_config)"
    unfolding e using rnd64_scaled_int [of 30000 0] by simp
  have 6: "minMomentum sample_engine_config \<le> 1 / 2" unfolding e by simp
  note t = temporal_momentum_decay [OF 1 2 3 4, of 31000 ?c]
  from t 5 6 have a: "\<exists>v. calculateTemporalMomentum ref_math sample_engine_config 31000 ?c = Fin v
      \<and> \<bar>v - 1 / 2\<bar> \<le> 1 / 2 ^ 53"
    by blast
  from t have "\<forall>now'. 31000 \<le> now' \<longrightarrow>
      dle (calculateTemporalMomentum ref_math sample_engine_config now' ?c)
          (calculateTemporalMomentum ref_math sample_engine_config 31000 ?c)"
    by blast
  then have b: "dle (calculateTemporalMomentum ref_math sample_engine_config 61000 ?c)
      (calculateTemporalMomentum ref_math sample_engine_config 31000 ?c)"
    by simp
  from t have "\<forall>now'. 1100 * halfLife sample_engine_config \<le> now' - lastAccess ?c \<longrightarrow>
      calculateTemporalMomentum ref_math sample_engine_config now' ?c
        = Fin (minMomentum sample_engine_config)"
    by blast
  then have c: "calculateTemporalMomentum ref_math sample_engine_config 33001000 ?c
      = Fin (3602879701896397 / 2 ^ 55)"
    by (simp add: e)
  have 7: "fsub (Fin 31000) (Fin 1000) = Fin (halfLife sample_engine_config)"
    using 5 by simp
  from 1 2 3 4 7 a b c show ?thesis by blast
qed

text \<open>
  C2, as stated, fails: the value at an elapsed time of one half-life is not always
  \<open>1/2\<close>. With the half-life \<open>11\<close> the quotient \<open>Math.log(2) / 11\<close> times \<open>11\<close> rounds to
  one unit in the last place above \<open>Math.log(2)\<close>, and the factor at \<open>now - lastAccess = 11\<close>
  is \<open>1/2 - 2^-54\<close>, which prints as \<open>0.49999999999999994\<close>.
\<close>

theorem temporal_halfLife_11_misses_half:
  "fsub (Fin 11) (Fin (lastAccess \<lparr>lastAccess = 0, accessCount = 0, state = Map.empty\<rparr>))
     = Fin (halfLife (sample_engine_config\<lparr>halfLife := 11\<rparr>))
   \<and> calculateTemporalMomentum ref_math (sample_engine_config\<lparr>halfLife := 11\<rparr>) 11
        \<lparr>lastAccess = 0, accessCount = 0, state = Map.empty\<rparr> = Fin (1 / 2 - 1 / 2 ^ 54)
   \<and> calculateTemporalMomentum ref_math (sample_engine_config\<lparr>halfLife := 11\<rparr>) 11
        \<lparr>lastAccess = 0, accessCount = 0, state = Map.empty\<rparr> \<noteq> Fin (1 / 2)"
proof -
  have "rnd64 11 = Fin 11" using rnd64_scaled_int [of 11 0] by simp
  then show ?thesis
    by (simp add: temporal_at_11)
qed




lemma confidence_absent:
  assumes "state c ''confidence'' = None" and "state c ''certainty'' = None"
  shows "calculateConfidenceMomentum c = 1 / 2"
  using assms by (simp add: calculateConfidenceMomentum_def truthy_num_def)

lemma confidence_truthy:
  assumes "state c ''confidence'' = Some x" and "x \<noteq> 0"
  shows "calculateConfidenceMomentum c =
           min 1 (x + min (3 / 10) (accessCount c * (5 / 100)))"
  using assms
  by (simp add: calculateConfidenceMomentum_def truthy_num_def js_or_def Let_def)

lemma certainty_truthy:
  assumes "\<not> truthy_num (state c ''confidence'')" and "state c ''certainty'' = Some y"
    and "y \<noteq> 0"
  shows "calculateConfidenceMomentum c =
           min 1 (y + min (3 / 10) (accessCount c * (5 / 100)))"
  using assms
  by (simp add: calculateConfidenceMomentum_def truthy_num_def js_or_def Let_def)

text \<open>
  C9. The guard tests truthiness, not presence. A context whose state carries
  \<open>confidence: 0\<close> (a present value) and no \<open>certainty\<close>, never accessed, gets the
  neutral \<open>1/2\<close>, where \<open>min(1, confidence + min(0.3, accessCount * 0.05))\<close> is \<open>0\<close>.
\<close>

theorem confidence_zero_reads_as_absent:
  "state \<lparr>lastAccess = 0, accessCount = 0, state = [''confidence'' \<mapsto> 0]\<rparr> ''confidence''
      = Some 0
   \<and> calculateConfidenceMomentum
        \<lparr>lastAccess = 0, accessCount = 0, state = [''confidence'' \<mapsto> 0]\<rparr> = 1 / 2
   \<and> min 1 (0 + min (3 / 10) (accessCount
        \<lparr>lastAccess = 0, accessCount = 0, state = [''confidence'' \<mapsto> 0]\<rparr> * (5 / 100)))
      = (0::real)"
  by (simp add: calculateConfidenceMomentum_def truthy_num_def)

section \<open>Theorems: Housekeeper\<close>

lemma strings_of_map_JStr: "strings_of (map JStr xs) = Some xs"
  by (induction xs) simp_all

lemma sort_key_not_Nil: "xs \<noteq> [] \<Longrightarrow> sort_key f xs \<noteq> []"
  by (metis length_sort length_0_conv)

lemma hd_insort_key:
  "ys \<noteq> [] \<Longrightarrow> hd (insort_key f x ys) = (if f x \<le> f (hd ys) then x else hd ys)"
  by (cases ys) simp_all

text \<open>
  The head of a stable sort is the earliest element with the least key.
\<close>

lemma hd_sort_key_first_least:
  assumes "xs \<noteq> []"
  shows "\<exists>i<length xs. hd (sort_key f xs) = xs ! i
           \<and> (\<forall>j<length xs. f (xs ! i) \<le> f (xs ! j))
           \<and> (\<forall>j<i. f (xs ! i) < f (xs ! j))"
  using assms
proof (induction xs)
  case Nil
  then show ?case by simp
next
  case (Cons x xs)
  show ?case
  proof (cases "xs = []")
    case True
    then show ?thesis by simp
  next
    case False
    from Cons.IH [OF False] obtain i where i: "i < length xs"
      and hd: "hd (sort_key f xs) = xs ! i"
      and least: "\<forall>j<length xs. f (xs ! i) \<le> f (xs ! j)"
      and first: "\<forall>j<i. f (xs ! i) < f (xs ! j)"
      by blast
    have ne: "sort_key f xs \<noteq> []"
      using False by (rule sort_key_not_Nil)
    show ?thesis
    proof (cases "f x \<le> f (xs ! i)")
      case True
      have "hd (sort_key f (x # xs)) = (x # xs) ! 0"
        using True hd ne by (simp add: hd_insort_key)
      moreover have "\<forall>j<length (x # xs). f ((x # xs) ! 0) \<le> f ((x # xs) ! j)"
      proof (intro allI impI)
        fix j assume "j < length (x # xs)"
        then show "f ((x # xs) ! 0) \<le> f ((x # xs) ! j)"
          using True least by (cases j) (auto intro: order_trans)
      qed
      ultimately show ?thesis
        by (intro exI [of _ 0]) simp
    next
      case gt: False
      have "hd (sort_key f (x # xs)) = (x # xs) ! Suc i"
        using gt hd ne by (simp add: hd_insort_key)
      moreover have "\<forall>j<length (x # xs). f ((x # xs) ! Suc i) \<le> f ((x # xs) ! j)"
      proof (intro allI impI)
        fix j assume "j < length (x # xs)"
        then show "f ((x # xs) ! Suc i) \<le> f ((x # xs) ! j)"
          using gt least by (cases j) auto
      qed
      moreover have "\<forall>j<Suc i. f ((x # xs) ! Suc i) < f ((x # xs) ! j)"
      proof (intro allI impI)
        fix j assume "j < Suc i"
        then show "f ((x # xs) ! Suc i) < f ((x # xs) ! j)"
          using gt first by (cases j) auto
      qed
      ultimately show ?thesis
        using i by (intro exI [of _ "Suc i"]) simp
    qed
  qed
qed


lemma sort_by_not_Nil: "xs \<noteq> [] \<Longrightarrow> sort_by cmp xs \<noteq> []"
proof (induction xs)
  case Nil
  then show ?case by simp
next
  case (Cons x xs)
  show ?case
    by (cases "foldr (insort_by cmp) xs []") (simp_all add: sort_by_def)
qed

lemma filterAnswers_strings:
  assumes "answers \<noteq> []"
  shows "fst (filterAnswers H now (JArr (map JStr answers)) q hk) =
           Inr (let best = hd (sort_by (\<lambda>a b. fsub (overall (snd b)) (overall (snd a)))
                                 (map (\<lambda>a. (a, scoreAnswer H a q)) answers))
                in \<lparr>answer = fst best, score = snd best,
                    result_confidence = overall (snd best)\<rparr>)"
  using assms
  by (simp add: filterAnswers_def strings_of_map_JStr Let_def calculateConfidence_def)

lemma filterAnswers_validation:
  "(fst (filterAnswers H now c q hk) = Inl (Error ''Candidates must be a non-empty array''))
     = (case c of JArr cs \<Rightarrow> cs = [] | _ \<Rightarrow> True)"
  by (cases c) (auto simp: filterAnswers_def Let_def split: option.splits)

lemma filterAnswers_result_pure:
  "fst (filterAnswers H now c q hk) = fst (filterAnswers H now' c q hk')"
  by (cases c) (auto simp: filterAnswers_def Let_def split: option.splits)

lemma weight_unit:
  assumes "0 \<le> w" and "w \<le> 1"
  shows "\<exists>v. rnd64 w = Fin v \<and> 0 \<le> v \<and> v \<le> 1"
  using rnd64_between [OF rnd64_0 rnd64_1 assms] .

lemma prod_unit:
  assumes "unit_double x" and "0 \<le> w" and "w \<le> 1"
  shows "\<exists>p. fmul (Fin x) (rnd64 w) = Fin p \<and> 0 \<le> p \<and> p \<le> 1"
proof -
  obtain v where v: "rnd64 w = Fin v" "0 \<le> v" "v \<le> 1"
    using weight_unit [OF assms(2,3)] by blast
  have x: "0 \<le> x" "x \<le> 1" using assms(1) by (simp_all add: unit_double_def)
  have "0 \<le> x * v" using x v by simp
  moreover have "x * v \<le> 1" using x v by (simp add: mult_le_one)
  ultimately show ?thesis
    using rnd64_between [OF rnd64_0 rnd64_1, of "x * v"] by (simp add: v)
qed

lemma sum_bounded:
  assumes "0 \<le> a" and "a \<le> of_nat k" and "0 \<le> b" and "b \<le> 1" and "k < 99"
  shows "\<exists>s. fadd (Fin a) (Fin b) = Fin s \<and> 0 \<le> s \<and> s \<le> of_nat (Suc k)"
proof -
  have "rnd64 (of_nat (Suc k)) = Fin (of_nat (Suc k))"
    using assms(5) by (intro rnd64_of_nat) simp
  moreover have "0 \<le> a + b" using assms by simp
  moreover have "a + b \<le> of_nat (Suc k)" using assms by simp
  ultimately show ?thesis
    using rnd64_between [OF rnd64_0, of "of_nat (Suc k)" "a + b"] by simp
qed

lemma overall_explicit:
  "overall (scoreAnswer H a q) =
     fadd (fadd (fadd (fadd (fadd (fadd (fadd
       (fmul (Fin (scoreRelevance H a q)) (rnd64 (25 / 100)))
       (fmul (Fin (scoreCompleteness H a)) (rnd64 (15 / 100))))
       (fmul (Fin (scoreStructure H a)) (rnd64 (12 / 100))))
       (fmul (Fin (scoreConfidenceMarkers H a)) (rnd64 (15 / 100))))
       (fmul (Fin (scoreContradictions H a)) (rnd64 (10 / 100))))
       (fmul (Fin (scoreContextAlignment H a q)) (rnd64 (10 / 100))))
       (fmul (Fin (scoreSpecificity H a)) (rnd64 (8 / 100))))
       (fmul (Fin (scoreEvidence H a)) (rnd64 (5 / 100)))"
  by (simp add: scoreAnswer_def Let_def)

text \<open>With factors in \<open>[0,1]\<close> the overall score is a finite number of the format.\<close>

lemma overall_finite:
  assumes "unit_scores H a q"
  shows "\<exists>v. overall (scoreAnswer H a q) = Fin v \<and> rnd64 v = Fin v \<and> 0 \<le> v \<and> v \<le> 8"
proof -
  from assms have u: "unit_double (scoreRelevance H a q)" "unit_double (scoreCompleteness H a)"
    "unit_double (scoreStructure H a)" "unit_double (scoreConfidenceMarkers H a)"
    "unit_double (scoreContradictions H a)" "unit_double (scoreContextAlignment H a q)"
    "unit_double (scoreSpecificity H a)" "unit_double (scoreEvidence H a)"
    by (simp_all add: unit_scores_def)
  obtain p1 where p1: "fmul (Fin (scoreRelevance H a q)) (rnd64 (25 / 100)) = Fin p1"
      "0 \<le> p1" "p1 \<le> 1"
    using prod_unit [OF u(1), of "25 / 100"] by auto
  obtain p2 where p2: "fmul (Fin (scoreCompleteness H a)) (rnd64 (15 / 100)) = Fin p2"
      "0 \<le> p2" "p2 \<le> 1"
    using prod_unit [OF u(2), of "15 / 100"] by auto
  obtain p3 where p3: "fmul (Fin (scoreStructure H a)) (rnd64 (12 / 100)) = Fin p3"
      "0 \<le> p3" "p3 \<le> 1"
    using prod_unit [OF u(3), of "12 / 100"] by auto
  obtain p4 where p4: "fmul (Fin (scoreConfidenceMarkers H a)) (rnd64 (15 / 100)) = Fin p4"
      "0 \<le> p4" "p4 \<le> 1"
    using prod_unit [OF u(4), of "15 / 100"] by auto
  obtain p5 where p5: "fmul (Fin (scoreContradictions H a)) (rnd64 (10 / 100)) = Fin p5"
      "0 \<le> p5" "p5 \<le> 1"
    using prod_unit [OF u(5), of "10 / 100"] by auto
  obtain p6 where p6: "fmul (Fin (scoreContextAlignment H a q)) (rnd64 (10 / 100)) = Fin p6"
      "0 \<le> p6" "p6 \<le> 1"
    using prod_unit [OF u(6), of "10 / 100"] by auto
  obtain p7 where p7: "fmul (Fin (scoreSpecificity H a)) (rnd64 (8 / 100)) = Fin p7"
      "0 \<le> p7" "p7 \<le> 1"
    using prod_unit [OF u(7), of "8 / 100"] by auto
  obtain p8 where p8: "fmul (Fin (scoreEvidence H a)) (rnd64 (5 / 100)) = Fin p8"
      "0 \<le> p8" "p8 \<le> 1"
    using prod_unit [OF u(8), of "5 / 100"] by auto
  obtain s2 where s2: "fadd (Fin p1) (Fin p2) = Fin s2" "0 \<le> s2" "s2 \<le> 2"
    using sum_bounded [of p1 1 p2] p1 p2 by auto
  obtain s3 where s3: "fadd (Fin s2) (Fin p3) = Fin s3" "0 \<le> s3" "s3 \<le> 3"
    using sum_bounded [of s2 2 p3] s2 p3 by auto
  obtain s4 where s4: "fadd (Fin s3) (Fin p4) = Fin s4" "0 \<le> s4" "s4 \<le> 4"
    using sum_bounded [of s3 3 p4] s3 p4 by auto
  obtain s5 where s5: "fadd (Fin s4) (Fin p5) = Fin s5" "0 \<le> s5" "s5 \<le> 5"
    using sum_bounded [of s4 4 p5] s4 p5 by auto
  obtain s6 where s6: "fadd (Fin s5) (Fin p6) = Fin s6" "0 \<le> s6" "s6 \<le> 6"
    using sum_bounded [of s5 5 p6] s5 p6 by auto
  obtain s7 where s7: "fadd (Fin s6) (Fin p7) = Fin s7" "0 \<le> s7" "s7 \<le> 7"
    using sum_bounded [of s6 6 p7] s6 p7 by auto
  obtain s8 where s8: "fadd (Fin s7) (Fin p8) = Fin s8" "0 \<le> s8" "s8 \<le> 8"
    using sum_bounded [of s7 7 p8] s7 p8 by auto
  have ov: "overall (scoreAnswer H a q) = Fin s8"
    unfolding overall_explicit p1(1) p2(1) p3(1) p4(1) p5(1) p6(1) p7(1) p8(1)
      s2(1) s3(1) s4(1) s5(1) s6(1) s7(1) s8(1) ..
  have "rnd64 (s7 + p8) = Fin s8" using s8(1) by simp
  then have "rnd64 s8 = Fin s8" by (rule rnd64_idem)
  with ov s8 show ?thesis by blast
qed

text \<open>On such scores the comparator \<open>b - a\<close> is positive exactly when \<open>a < b\<close>.\<close>

lemma comparator_sign:
  assumes "rnd64 a = Fin a" and "rnd64 b = Fin b"
    and "0 \<le> a" and "a \<le> 8" and "0 \<le> b" and "b \<le> 8"
  shows "positive (fsub (Fin b) (Fin a)) \<longleftrightarrow> a < b"
proof -
  have na: "nearest a = a" and nb: "nearest b = b"
    using assms(1,2) by (auto simp: rnd64_def Let_def split: if_splits)
  have r8: "rnd64 8 = Fin 8" "rnd64 (- 8) = Fin (- 8)"
    using rnd64_scaled_int [of 8 0] rnd64_scaled_int [of "- 8" 0] by simp_all
  obtain d where d: "rnd64 (b - a) = Fin d"
    using rnd64_between [OF r8(2) r8(1), of "b - a"] assms(3-6) by auto
  then have dn: "d = nearest (b - a)"
    by (auto simp: rnd64_def Let_def split: if_splits)
  show ?thesis
  proof (cases "a < b")
    case True
    then have "0 < d" unfolding dn using na nb by (intro nearest_diff_pos)
    with True show ?thesis by (simp add: d positive_def)
  next
    case False
    then have "b - a \<le> 0" by simp
    then have "nearest (b - a) \<le> nearest 0" by (rule nearest_mono)
    then have "d \<le> 0" by (simp add: dn)
    with False show ?thesis by (simp add: d positive_def)
  qed
qed

lemma good_positive:
  assumes "good_score a" and "good_score b"
  shows "positive (fsub b a) \<longleftrightarrow> fin_val a < fin_val b"
  using assms comparator_sign
  by (auto simp: good_score_def fin_val_def simp del: fsub_Fin)

lemma insort_by_key:
  assumes "good_score (f x)" and "\<forall>y\<in>set ys. good_score (f y)"
  shows "insort_by (\<lambda>a b. fsub (f b) (f a)) x ys = insort_key (\<lambda>s. - fin_val (f s)) x ys"
  using assms(2)
proof (induction ys)
  case Nil
  show ?case by simp
next
  case (Cons y ys)
  have "positive (fsub (f y) (f x)) \<longleftrightarrow> fin_val (f x) < fin_val (f y)"
    using assms(1) Cons.prems by (intro good_positive) simp_all
  then show ?case using Cons by auto
qed

lemma sort_by_key:
  assumes "\<forall>y\<in>set xs. good_score (f y)"
  shows "sort_by (\<lambda>a b. fsub (f b) (f a)) xs = sort_key (\<lambda>s. - fin_val (f s)) xs"
  using assms
proof (induction xs)
  case Nil
  show ?case by (simp add: sort_by_def)
next
  case (Cons x xs)
  then have IH: "sort_by (\<lambda>a b. fsub (f b) (f a)) xs = sort_key (\<lambda>s. - fin_val (f s)) xs"
    by simp
  have "\<forall>y\<in>set (sort_key (\<lambda>s. - fin_val (f s)) xs). good_score (f y)"
    using Cons.prems by simp
  then have "insort_by (\<lambda>a b. fsub (f b) (f a)) x (sort_key (\<lambda>s. - fin_val (f s)) xs)
      = insort_key (\<lambda>s. - fin_val (f s)) x (sort_key (\<lambda>s. - fin_val (f s)) xs)"
    using Cons.prems by (intro insort_by_key) simp_all
  then show ?case
    using IH by (simp add: sort_by_def)
qed

lemma good_overall: "unit_scores H a q \<Longrightarrow> good_score (overall (scoreAnswer H a q))"
  using overall_finite [of H a q] by (simp add: good_score_def)

lemma good_dle: "good_score a \<Longrightarrow> good_score b \<Longrightarrow> dle a b \<longleftrightarrow> fin_val a \<le> fin_val b"
  by (auto simp: good_score_def fin_val_def)

lemma good_dless: "good_score a \<Longrightarrow> good_score b \<Longrightarrow> dless a b \<longleftrightarrow> fin_val a < fin_val b"
  by (auto simp: good_score_def fin_val_def dless_def)

lemma sample_dogs_7:
  "overall (scoreAnswer sample_heuristics ''dogs 7'' q) = Fin (4116290059416633 / 2 ^ 53)"
proof -
  have w25: "rnd64 (25 / 100) = Fin (1 / 2 ^ 2)"
    by (subst rnd64_eval [of "-2"]) (simp_all add: pow2_def rne_def Let_def)
  have p1: "rnd64 (5404319552844595 / 2 ^ 54 * (1 / 2 ^ 2)) = Fin (5404319552844595 / 2 ^ 56)"
    by (subst rnd64_eval [of "-4"]) (simp_all add: pow2_def rne_def Let_def)
  have w15: "rnd64 (15 / 100) = Fin (5404319552844595 / 2 ^ 55)"
    by (subst rnd64_eval [of "-3"]) (simp_all add: pow2_def rne_def Let_def)
  have p3: "rnd64 (5404319552844595 / 2 ^ 54 * (5404319552844595 / 2 ^ 55)) = Fin (3242591731706757 / 2 ^ 56)"
    by (subst rnd64_eval [of "-5"]) (simp_all add: pow2_def rne_def Let_def)
  have w12: "rnd64 (12 / 100) = Fin (1080863910568919 / 2 ^ 53)"
    by (subst rnd64_eval [of "-4"]) (simp_all add: pow2_def rne_def Let_def)
  have p5: "rnd64 (3602879701896397 / 2 ^ 53 * (1080863910568919 / 2 ^ 53)) = Fin (3458764513820541 / 2 ^ 56)"
    by (subst rnd64_eval [of "-5"]) (simp_all add: pow2_def rne_def Let_def)
  have p6: "rnd64 (1 / 2 * (5404319552844595 / 2 ^ 55)) = Fin (5404319552844595 / 2 ^ 56)"
    by (subst rnd64_eval [of "-4"]) (simp_all add: pow2_def rne_def Let_def)
  have w10: "rnd64 (10 / 100) = Fin (3602879701896397 / 2 ^ 55)"
    by (subst rnd64_eval [of "-4"]) (simp_all add: pow2_def rne_def Let_def)
  have p8: "rnd64 (1 * (3602879701896397 / 2 ^ 55)) = Fin (3602879701896397 / 2 ^ 55)"
    by (subst rnd64_eval [of "-4"]) (simp_all add: pow2_def rne_def Let_def)
  have p9: "rnd64 (1 / 2 * (3602879701896397 / 2 ^ 55)) = Fin (3602879701896397 / 2 ^ 56)"
    by (subst rnd64_eval [of "-5"]) (simp_all add: pow2_def rne_def Let_def)
  have w8: "rnd64 (8 / 100) = Fin (5764607523034235 / 2 ^ 56)"
    by (subst rnd64_eval [of "-4"]) (simp_all add: pow2_def rne_def Let_def)
  have p11: "rnd64 (3602879701896397 / 2 ^ 52 * (5764607523034235 / 2 ^ 56)) = Fin (1152921504606847 / 2 ^ 54)"
    by (subst rnd64_eval [of "-4"]) (simp_all add: pow2_def rne_def Let_def)
  have w5: "rnd64 (5 / 100) = Fin (3602879701896397 / 2 ^ 56)"
    by (subst rnd64_eval [of "-5"]) (simp_all add: pow2_def rne_def Let_def)
  have p13: "rnd64 (0 * (3602879701896397 / 2 ^ 56)) = Fin 0"
    by simp
  have s14: "rnd64 (5404319552844595 / 2 ^ 56 + 3242591731706757 / 2 ^ 56) = Fin (1080863910568919 / 2 ^ 53)"
    by (subst rnd64_eval [of "-4"]) (simp_all add: pow2_def rne_def Let_def)
  have s15: "rnd64 (1080863910568919 / 2 ^ 53 + 3458764513820541 / 2 ^ 56) = Fin (3026418949592973 / 2 ^ 54)"
    by (subst rnd64_eval [of "-3"]) (simp_all add: pow2_def rne_def Let_def)
  have s16: "rnd64 (3026418949592973 / 2 ^ 54 + 5404319552844595 / 2 ^ 56) = Fin (2188749418902061 / 2 ^ 53)"
    by (subst rnd64_eval [of "-3"]) (simp_all add: pow2_def rne_def Let_def)
  have s17: "rnd64 (2188749418902061 / 2 ^ 53 + 3602879701896397 / 2 ^ 55) = Fin (96545917011755 / 2 ^ 48)"
    by (subst rnd64_eval [of "-2"]) (simp_all add: pow2_def rne_def Let_def)
  have s18: "rnd64 (96545917011755 / 2 ^ 48 + 3602879701896397 / 2 ^ 56) = Fin (7079658614226419 / 2 ^ 54)"
    by (subst rnd64_eval [of "-2"]) (simp_all add: pow2_def rne_def Let_def)
  have s19: "rnd64 (7079658614226419 / 2 ^ 54 + 1152921504606847 / 2 ^ 54) = Fin (4116290059416633 / 2 ^ 53)"
    by (subst rnd64_eval [of "-2"]) (simp_all add: pow2_def rne_def Let_def)
  have s20: "rnd64 (4116290059416633 / 2 ^ 53 + 0) = Fin (4116290059416633 / 2 ^ 53)"
    by (simp only: add_0_right) (subst rnd64_eval [of "-2"], simp_all add: pow2_def rne_def Let_def)
  show ?thesis
    unfolding scoreAnswer_def Let_def sample_heuristics_def
    by (simp only: heuristics.simps answer_factors.simps answer_score.simps list.inject
        char.inject simp_thms if_True if_False fmul.simps fadd.simps
        w25 p1 w15 p3 w12 p5 p6 w10 p8 p9 w8 p11 w5 p13 s14 s15 s16 s17 s18 s19 s20)
qed

lemma sample_dogs_is_some:
  "overall (scoreAnswer sample_heuristics ''dogs is some'' q) = Fin (8232580118833267 / 2 ^ 54)"
proof -
  have w25: "rnd64 (25 / 100) = Fin (1 / 2 ^ 2)"
    by (subst rnd64_eval [of "-2"]) (simp_all add: pow2_def rne_def Let_def)
  have p1: "rnd64 (5404319552844595 / 2 ^ 54 * (1 / 2 ^ 2)) = Fin (5404319552844595 / 2 ^ 56)"
    by (subst rnd64_eval [of "-4"]) (simp_all add: pow2_def rne_def Let_def)
  have w15: "rnd64 (15 / 100) = Fin (5404319552844595 / 2 ^ 55)"
    by (subst rnd64_eval [of "-3"]) (simp_all add: pow2_def rne_def Let_def)
  have p3: "rnd64 (5404319552844595 / 2 ^ 54 * (5404319552844595 / 2 ^ 55)) = Fin (3242591731706757 / 2 ^ 56)"
    by (subst rnd64_eval [of "-5"]) (simp_all add: pow2_def rne_def Let_def)
  have w12: "rnd64 (12 / 100) = Fin (1080863910568919 / 2 ^ 53)"
    by (subst rnd64_eval [of "-4"]) (simp_all add: pow2_def rne_def Let_def)
  have p5: "rnd64 (3602879701896397 / 2 ^ 53 * (1080863910568919 / 2 ^ 53)) = Fin (3458764513820541 / 2 ^ 56)"
    by (subst rnd64_eval [of "-5"]) (simp_all add: pow2_def rne_def Let_def)
  have p6: "rnd64 (1 / 2 * (5404319552844595 / 2 ^ 55)) = Fin (5404319552844595 / 2 ^ 56)"
    by (subst rnd64_eval [of "-4"]) (simp_all add: pow2_def rne_def Let_def)
  have w10: "rnd64 (10 / 100) = Fin (3602879701896397 / 2 ^ 55)"
    by (subst rnd64_eval [of "-4"]) (simp_all add: pow2_def rne_def Let_def)
  have p8: "rnd64 (1 * (3602879701896397 / 2 ^ 55)) = Fin (3602879701896397 / 2 ^ 55)"
    by (subst rnd64_eval [of "-4"]) (simp_all add: pow2_def rne_def Let_def)
  have p9: "rnd64 (8106479329266893 / 2 ^ 53 * (3602879701896397 / 2 ^ 55)) = Fin (6485183463413515 / 2 ^ 56)"
    by (subst rnd64_eval [of "-4"]) (simp_all add: pow2_def rne_def Let_def)
  have w8: "rnd64 (8 / 100) = Fin (5764607523034235 / 2 ^ 56)"
    by (subst rnd64_eval [of "-4"]) (simp_all add: pow2_def rne_def Let_def)
  have p11: "rnd64 (5404319552844595 / 2 ^ 54 * (5764607523034235 / 2 ^ 56)) = Fin (3458764513820541 / 2 ^ 57)"
    by (subst rnd64_eval [of "-6"]) (simp_all add: pow2_def rne_def Let_def)
  have w5: "rnd64 (5 / 100) = Fin (3602879701896397 / 2 ^ 56)"
    by (subst rnd64_eval [of "-5"]) (simp_all add: pow2_def rne_def Let_def)
  have p13: "rnd64 (0 * (3602879701896397 / 2 ^ 56)) = Fin 0"
    by simp
  have s14: "rnd64 (5404319552844595 / 2 ^ 56 + 3242591731706757 / 2 ^ 56) = Fin (1080863910568919 / 2 ^ 53)"
    by (subst rnd64_eval [of "-4"]) (simp_all add: pow2_def rne_def Let_def)
  have s15: "rnd64 (1080863910568919 / 2 ^ 53 + 3458764513820541 / 2 ^ 56) = Fin (3026418949592973 / 2 ^ 54)"
    by (subst rnd64_eval [of "-3"]) (simp_all add: pow2_def rne_def Let_def)
  have s16: "rnd64 (3026418949592973 / 2 ^ 54 + 5404319552844595 / 2 ^ 56) = Fin (2188749418902061 / 2 ^ 53)"
    by (subst rnd64_eval [of "-3"]) (simp_all add: pow2_def rne_def Let_def)
  have s17: "rnd64 (2188749418902061 / 2 ^ 53 + 3602879701896397 / 2 ^ 55) = Fin (96545917011755 / 2 ^ 48)"
    by (subst rnd64_eval [of "-2"]) (simp_all add: pow2_def rne_def Let_def)
  have s18: "rnd64 (96545917011755 / 2 ^ 48 + 6485183463413515 / 2 ^ 56) = Fin (7800234554605699 / 2 ^ 54)"
    by (subst rnd64_eval [of "-2"]) (simp_all add: pow2_def rne_def Let_def)
  have s19: "rnd64 (7800234554605699 / 2 ^ 54 + 3458764513820541 / 2 ^ 57) = Fin (8232580118833267 / 2 ^ 54)"
    by (subst rnd64_eval [of "-2"]) (simp_all add: pow2_def rne_def Let_def)
  have s20: "rnd64 (8232580118833267 / 2 ^ 54 + 0) = Fin (8232580118833267 / 2 ^ 54)"
    by (simp only: add_0_right) (subst rnd64_eval [of "-2"], simp_all add: pow2_def rne_def Let_def)
  show ?thesis
    unfolding scoreAnswer_def Let_def sample_heuristics_def
    by (simp only: heuristics.simps answer_factors.simps answer_score.simps list.inject
        char.inject simp_thms if_True if_False fmul.simps fadd.simps
        w25 p1 w15 p3 w12 p5 p6 w10 p8 p9 w8 p11 w5 p13 s14 s15 s16 s17 s18 s19 s20)
qed

text \<open>
  C8. For a non-empty array of candidate strings whose factors lie in \<open>[0,1]\<close>,
  \<open>filterAnswers\<close> returns a candidate of greatest overall score, the earliest such in
  input order, with that candidate's own score breakdown. The overall score is the
  eight-factor weighted sum with the weights \<open>0.25, 0.15, 0.12, 0.15, 0.10, 0.10, 0.08,
  0.05\<close>, as binary64 computes it from left to right. The returned result depends only
  on the candidates and the question (not on the clock or on the filter history), and
  the validation error is raised exactly when \<open>candidates\<close> is not an array or is the empty
  array.
\<close>

theorem filterAnswers_first_best:
  "(answers \<noteq> [] \<and> (\<forall>a\<in>set answers. unit_scores H a q) \<longrightarrow>
      (\<exists>i<length answers.
          fst (filterAnswers H now (JArr (map JStr answers)) q hk) =
            Inr \<lparr>answer = answers ! i, score = scoreAnswer H (answers ! i) q,
                 result_confidence = overall (scoreAnswer H (answers ! i) q)\<rparr>
        \<and> (\<forall>j<length answers.
              dle (overall (scoreAnswer H (answers ! j) q))
                  (overall (scoreAnswer H (answers ! i) q)))
        \<and> (\<forall>j<i.
              dless (overall (scoreAnswer H (answers ! j) q))
                    (overall (scoreAnswer H (answers ! i) q)))))
   \<and> scoreAnswer H a q =
       \<lparr>overall =
          fadd (fadd (fadd (fadd (fadd (fadd (fadd
            (fmul (Fin (scoreRelevance H a q)) (rnd64 (25 / 100)))
            (fmul (Fin (scoreCompleteness H a)) (rnd64 (15 / 100))))
            (fmul (Fin (scoreStructure H a)) (rnd64 (12 / 100))))
            (fmul (Fin (scoreConfidenceMarkers H a)) (rnd64 (15 / 100))))
            (fmul (Fin (scoreContradictions H a)) (rnd64 (10 / 100))))
            (fmul (Fin (scoreContextAlignment H a q)) (rnd64 (10 / 100))))
            (fmul (Fin (scoreSpecificity H a)) (rnd64 (8 / 100))))
            (fmul (Fin (scoreEvidence H a)) (rnd64 (5 / 100))),
        score_factors =
          \<lparr>relevance = scoreRelevance H a q, completeness = scoreCompleteness H a,
           structureScore = scoreStructure H a,
           confidenceMarkers = scoreConfidenceMarkers H a,
           contradiction = scoreContradictions H a,
           contextAlignment = scoreContextAlignment H a q,
           specificity = scoreSpecificity H a, evidence = scoreEvidence H a\<rparr>\<rparr>
   \<and> fst (filterAnswers H now c q hk) = fst (filterAnswers H now' c q hk')
   \<and> ((fst (filterAnswers H now c q hk) = Inl (Error ''Candidates must be a non-empty array''))
        = (case c of JArr cs \<Rightarrow> cs = [] | _ \<Rightarrow> True))"
proof (intro conjI impI)
  assume asm: "answers \<noteq> [] \<and> (\<forall>a\<in>set answers. unit_scores H a q)"
  then have ne: "answers \<noteq> []" and unit: "\<forall>a\<in>set answers. unit_scores H a q" by simp_all
  let ?scored = "map (\<lambda>a. (a, scoreAnswer H a q)) answers"
  let ?key = "\<lambda>s :: string \<times> answer_score. - fin_val (overall (snd s))"
  have good: "good_score (overall (scoreAnswer H (answers ! j) q))" if "j < length answers" for j
    using unit that by (intro good_overall) simp
  have "\<forall>y\<in>set ?scored. good_score (overall (snd y))"
    using unit by (auto intro: good_overall)
  then have sorted: "sort_by (\<lambda>a b. fsub (overall (snd b)) (overall (snd a))) ?scored
      = sort_key ?key ?scored"
    by (rule sort_by_key)
  from ne have "?scored \<noteq> []" by simp
  from hd_sort_key_first_least [OF this, of ?key]
  obtain i where i: "i < length answers"
    and hd: "hd (sort_key ?key ?scored) = ?scored ! i"
    and least: "\<forall>j<length ?scored. ?key (?scored ! i) \<le> ?key (?scored ! j)"
    and first: "\<forall>j<i. ?key (?scored ! i) < ?key (?scored ! j)"
    by auto
  have "fst (filterAnswers H now (JArr (map JStr answers)) q hk) =
      Inr \<lparr>answer = answers ! i, score = scoreAnswer H (answers ! i) q,
           result_confidence = overall (scoreAnswer H (answers ! i) q)\<rparr>"
    using i hd by (simp add: filterAnswers_strings [OF ne] sorted Let_def)
  moreover have "\<forall>j<length answers.
      dle (overall (scoreAnswer H (answers ! j) q)) (overall (scoreAnswer H (answers ! i) q))"
    using least i good by (simp add: good_dle)
  moreover have "\<forall>j<i.
      dless (overall (scoreAnswer H (answers ! j) q)) (overall (scoreAnswer H (answers ! i) q))"
    using first i good by (simp add: good_dless)
  ultimately show "\<exists>i<length answers.
      fst (filterAnswers H now (JArr (map JStr answers)) q hk) =
        Inr \<lparr>answer = answers ! i, score = scoreAnswer H (answers ! i) q,
             result_confidence = overall (scoreAnswer H (answers ! i) q)\<rparr>
      \<and> (\<forall>j<length answers.
            dle (overall (scoreAnswer H (answers ! j) q))
                (overall (scoreAnswer H (answers ! i) q)))
      \<and> (\<forall>j<i.
            dless (overall (scoreAnswer H (answers ! j) q))
                  (overall (scoreAnswer H (answers ! i) q)))"
    using i by blast
next
  show "scoreAnswer H a q =
       \<lparr>overall =
          fadd (fadd (fadd (fadd (fadd (fadd (fadd
            (fmul (Fin (scoreRelevance H a q)) (rnd64 (25 / 100)))
            (fmul (Fin (scoreCompleteness H a)) (rnd64 (15 / 100))))
            (fmul (Fin (scoreStructure H a)) (rnd64 (12 / 100))))
            (fmul (Fin (scoreConfidenceMarkers H a)) (rnd64 (15 / 100))))
            (fmul (Fin (scoreContradictions H a)) (rnd64 (10 / 100))))
            (fmul (Fin (scoreContextAlignment H a q)) (rnd64 (10 / 100))))
            (fmul (Fin (scoreSpecificity H a)) (rnd64 (8 / 100))))
            (fmul (Fin (scoreEvidence H a)) (rnd64 (5 / 100))),
        score_factors =
          \<lparr>relevance = scoreRelevance H a q, completeness = scoreCompleteness H a,
           structureScore = scoreStructure H a,
           confidenceMarkers = scoreConfidenceMarkers H a,
           contradiction = scoreContradictions H a,
           contextAlignment = scoreContextAlignment H a q,
           specificity = scoreSpecificity H a, evidence = scoreEvidence H a\<rparr>\<rparr>"
    by (simp add: scoreAnswer_def Let_def)
next
  show "fst (filterAnswers H now c q hk) = fst (filterAnswers H now' c q hk')"
    by (rule filterAnswers_result_pure)
next
  show "(fst (filterAnswers H now c q hk) = Inl (Error ''Candidates must be a non-empty array''))
      = (case c of JArr cs \<Rightarrow> cs = [] | _ \<Rightarrow> True)"
    by (rule filterAnswers_validation)
qed

text \<open>
  The run on the two sample answers: their exact weighted sums are both \<open>0.457\<close>, the
  computed scores are \<open>0.45699999999999996\<close> for \<open>dogs 7\<close> and \<open>0.457\<close> for
  \<open>dogs is some\<close>, and the second answer is returned.
\<close>

lemma sample_unit_scores: "unit_scores sample_heuristics a q"
proof -
  have 1: "unit_double (5404319552844595 / 2 ^ 54)"
    using rnd64_scaled_int [of 5404319552844595 "- 54"]
    by (simp add: unit_double_def pow2_def)
  have 2: "unit_double (3602879701896397 / 2 ^ 53)"
    using rnd64_scaled_int [of 3602879701896397 "- 53"]
    by (simp add: unit_double_def pow2_def)
  have 3: "unit_double (1 / 2)"
    using rnd64_scaled_int [of 1 "- 1"]
    by (simp add: unit_double_def pow2_def)
  have 4: "unit_double 1" "unit_double 0"
    by (simp_all add: unit_double_def)
  have 5: "unit_double (8106479329266893 / 2 ^ 53)"
    using rnd64_scaled_int [of 8106479329266893 "- 53"]
    by (simp add: unit_double_def pow2_def)
  have 6: "unit_double (3602879701896397 / 2 ^ 52)"
    using rnd64_scaled_int [of 3602879701896397 "- 52"]
    by (simp add: unit_double_def pow2_def)
  show ?thesis
    unfolding unit_scores_def sample_heuristics_def
    by (simp only: heuristics.simps 1 2 3 4 5 6 if_split simp_thms)
qed

theorem filterAnswers_first_best_witness:
  "unit_scores sample_heuristics ''dogs 7'' ''What about cats''
   \<and> unit_scores sample_heuristics ''dogs is some'' ''What about cats''
   \<and> fst (filterAnswers sample_heuristics 7
        (JArr [JStr ''dogs 7'', JStr ''dogs is some'']) ''What about cats''
        \<lparr>filterHistory = []\<rparr>) =
      Inr \<lparr>answer = ''dogs is some'',
           score = scoreAnswer sample_heuristics ''dogs is some'' ''What about cats'',
           result_confidence = Fin (8232580118833267 / 2 ^ 54)\<rparr>
   \<and> overall (scoreAnswer sample_heuristics ''dogs 7'' ''What about cats'')
        = Fin (4116290059416633 / 2 ^ 53)
   \<and> overall (scoreAnswer sample_heuristics ''dogs is some'' ''What about cats'')
        = Fin (8232580118833267 / 2 ^ 54)"
proof -
  let ?as = "[''dogs 7'', ''dogs is some'']"
  let ?q = "''What about cats''"
  have ne: "?as \<noteq> []" by simp
  have unit: "\<forall>a\<in>set ?as. unit_scores sample_heuristics a ?q"
    by (simp add: sample_unit_scores)
  have o0: "overall (scoreAnswer sample_heuristics ''dogs 7'' ?q) = Fin (4116290059416633 / 2 ^ 53)"
    by (rule sample_dogs_7)
  have o1: "overall (scoreAnswer sample_heuristics ''dogs is some'' ?q)
      = Fin (8232580118833267 / 2 ^ 54)"
    by (rule sample_dogs_is_some)
  from filterAnswers_first_best [of ?as sample_heuristics ?q 7 "\<lparr>filterHistory = []\<rparr>"
      "''dogs 7''" JNull 7 "\<lparr>filterHistory = []\<rparr>"] ne unit
  obtain i where i: "i < length ?as"
    and res: "fst (filterAnswers sample_heuristics 7 (JArr (map JStr ?as)) ?q
        \<lparr>filterHistory = []\<rparr>) =
        Inr \<lparr>answer = ?as ! i, score = scoreAnswer sample_heuristics (?as ! i) ?q,
             result_confidence = overall (scoreAnswer sample_heuristics (?as ! i) ?q)\<rparr>"
    and least: "\<forall>j<length ?as.
        dle (overall (scoreAnswer sample_heuristics (?as ! j) ?q))
            (overall (scoreAnswer sample_heuristics (?as ! i) ?q))"
    by blast
  have "i \<noteq> 0"
  proof
    assume "i = 0"
    with least [rule_format, of 1]
    have "dle (overall (scoreAnswer sample_heuristics ''dogs is some'' ?q))
        (overall (scoreAnswer sample_heuristics ''dogs 7'' ?q))"
      by simp
    then show False unfolding o0 o1 by simp
  qed
  with i have "i = 1" by simp
  with res o0 o1 show ?thesis
    by (simp add: sample_unit_scores)
qed

section \<open>Theorems: Bridge\<close>

text \<open>
  C7, as the code has it. For every platform that is unknown or not connected,
  \<open>switchContext\<close> throws \<open>Platform <name> is not connected\<close> (the promise rejects) and
  leaves the active context and the history as they were: a failure the caller cannot
  miss, but an exception, not the value \<open>false\<close>.
\<close>

theorem switchContext_unconnected_throws:
  assumes "platforms b p = None \<or> (\<exists>e. platforms b p = Some e \<and> \<not> connected e)"
  shows "switchContext b ts p transferContext =
           (Inl (Error (''Platform '' @ p @ '' is not connected'')), b)"
  using assms by (auto simp: switchContext_def is_connected_def)

theorem switchContext_unconnected_throws_witness:
  "platforms ContextBridge_new ''slack'' = None
   \<and> switchContext ContextBridge_new ''2024-01-01T00:00:00.000Z'' ''slack'' True =
       (Inl (Error ''Platform slack is not connected''), ContextBridge_new)"
proof -
  have h: "platforms ContextBridge_new ''slack'' = None"
    by (simp add: ContextBridge_new_def)
  then have "platforms ContextBridge_new ''slack'' = None
      \<or> (\<exists>e. platforms ContextBridge_new ''slack'' = Some e \<and> \<not> connected e)"
    by simp
  from switchContext_unconnected_throws [OF this, of "''2024-01-01T00:00:00.000Z''" True] h
  show ?thesis by simp
qed

text \<open>
  C7, as stated, fails: on a fresh bridge a switch to the unknown platform \<open>slack\<close>, and
  to the known but unconnected platform \<open>claude\<close>, each end in an exception.
\<close>

theorem switchContext_returns_no_false:
  "fst (switchContext ContextBridge_new ''2024-01-01T00:00:00.000Z'' ''slack'' True) =
     Inl (Error ''Platform slack is not connected'')
   \<and> fst (switchContext ContextBridge_new ''2024-01-01T00:00:00.000Z'' ''claude'' True) =
     Inl (Error ''Platform claude is not connected'')"
  by (simp add: switchContext_def is_connected_def ContextBridge_new_def)

lemma switchContext_connected:
  assumes "platforms b p = Some e" and "connected e"
  shows "switchContext b ts p transferContext =
           (Inr \<lparr>success = True, platform = p, previousContext = activeContext b,
                 result_contextId = contextId e\<rparr>,
            b\<lparr>activeContext := Some p,
               contextHistory := contextHistory b @
                 [\<lparr>h_timestamp = ts, h_from = activeContext b, h_to = p,
                   transferred = transferContext\<rparr>]\<rparr>)"
  using assms by (simp add: switchContext_def is_connected_def Let_def)

section \<open>Theorems: Vault\<close>

lemma saveContext_throws_iff:
  "(\<exists>e. fst (saveContext R iv v d c) = Inl e) \<longleftrightarrow> \<not> truthy c \<or> \<not> truthy (prop_get c ''id'')"
  by (simp add: saveContext_def Let_def)

text \<open>
  C10. \<open>saveContext\<close> is atomic on validation failure: for an argument that is \<open>null\<close>
  or \<open>undefined\<close>, or whose \<open>id\<close> is missing, it throws \<open>Context must have an id\<close> and
  the Vault (its context map included) and the disk are exactly what they were.
\<close>

theorem saveContext_validation_atomic:
  assumes "c = JNull \<or> c = JUndefined \<or> prop_get c ''id'' = JUndefined"
  shows "saveContext R iv v d c = (Inl (Error ''Context must have an id''), v, d)"
  using assms by (auto simp: saveContext_def)

theorem saveContext_validation_atomic_witness:
  "saveContext ref_runtime ''iv'' sample_vault empty_disk JNull
     = (Inl (Error ''Context must have an id''), sample_vault, empty_disk)
   \<and> prop_get (JObj [(''appId'', JStr ''app1'')]) ''id'' = JUndefined
   \<and> saveContext ref_runtime ''iv'' sample_vault empty_disk (JObj [(''appId'', JStr ''app1'')])
     = (Inl (Error ''Context must have an id''), sample_vault, empty_disk)"
proof -
  have h: "prop_get (JObj [(''appId'', JStr ''app1'')]) ''id'' = JUndefined"
    by simp
  show ?thesis
    using h
      saveContext_validation_atomic [of JNull ref_runtime "''iv''" sample_vault empty_disk]
      saveContext_validation_atomic [of "JObj [(''appId'', JStr ''app1'')]" ref_runtime
        "''iv''" sample_vault empty_disk]
    by simp
qed

lemma prop_envelope [simp]:
  "prop_read (envelope e i t) ''encrypted'' = Inr (JStr e)"
  "prop_get (envelope e i t) ''iv'' = JStr i"
  "prop_get (envelope e i t) ''authTag'' = JStr t"
  by (simp_all add: envelope_def)

lemma decipher_envelope:
  "decipher R cfg (envelope e i t) = gcm_decrypt R (encryptionKey cfg) (JStr i) (JStr t) (JStr e)"
  by (simp add: decipher_def)

lemma decrypt_encrypt:
  assumes "cipher_inverts R cfg iv x"
  shows "decrypt R cfg (encrypt R cfg iv x) = x"
proof (cases "gcm_encrypt R (encryptionKey cfg) iv x")
  case None
  with assms show ?thesis
    by (auto simp: cipher_inverts_def encrypt_def decrypt_def split: option.splits)
next
  case (Some p)
  obtain e t where p: "p = (e, t)" by (cases p)
  with Some assms show ?thesis
    by (simp add: cipher_inverts_def encrypt_def decrypt_def decipher_envelope)
qed

lemma decrypt_not_json: "json_parse R s = None \<Longrightarrow> decrypt R cfg s = s"
  by (simp add: decrypt_def)

lemma decrypt_decipher_fails:
  "json_parse R s = Some v \<Longrightarrow> decipher R cfg v = None \<Longrightarrow> decrypt R cfg s = s"
  by (simp add: decrypt_def)

lemma decrypt_decipher_accepts:
  "json_parse R s = Some v \<Longrightarrow> decipher R cfg v = Some y \<Longrightarrow> decrypt R cfg s = y"
  by (simp add: decrypt_def)

text \<open>An envelope of \<open>_encrypt\<close> with another full-length tag: the decipher throws.\<close>

lemma decipher_other_tag:
  assumes "cipher_inverts R cfg iv x" and "tag_authenticates R cfg"
    and "gcm_encrypt R (encryptionKey cfg) iv x = Some (encrypted, t)"
    and "length (hex_bytes t) = 16" and "length (hex_bytes t') = 16"
    and "hex_bytes t' \<noteq> hex_bytes t"
  shows "decipher R cfg (envelope encrypted iv t') = None"
proof -
  have "gcm_decrypt R (encryptionKey cfg) (JStr iv) (JStr t) (JStr encrypted) = Some x"
    using assms(1,3) by (simp add: cipher_inverts_def)
  then have "gcm_decrypt R (encryptionKey cfg) (JStr iv) (JStr t) (JStr encrypted) \<noteq> None"
    by simp
  with assms(2,4,5,6)
  have "gcm_decrypt R (encryptionKey cfg) (JStr iv) (JStr t') (JStr encrypted) = None"
    unfolding tag_authenticates_def by blast
  then show ?thesis by (simp add: decipher_envelope)
qed

text \<open>
  C1, as the code has it. Where the libraries keep their contracts for the payload
  (\<open>cipher_inverts\<close>), decrypting what \<open>_encrypt\<close> returned under the same key gives
  the payload back. \<open>_decrypt\<close> never fails: for a text that is not JSON, and for an
  envelope on which the decipher throws, the \<open>catch\<close> returns the text it was given,
  unchanged; for an envelope that the decipher accepts it returns the decipher's output.
  In particular, where the decipher authenticates (\<open>tag_authenticates\<close>), an envelope of
  \<open>_encrypt\<close> whose 16-byte tag has been replaced by another 16-byte tag makes the
  decipher throw, and \<open>_decrypt\<close> returns the tampered text itself.
\<close>

theorem decrypt_roundtrip_or_passthrough:
  assumes "cipher_inverts R cfg iv x" and "tag_authenticates R cfg"
  shows "decrypt R cfg (encrypt R cfg iv x) = x
       \<and> (\<forall>s. json_parse R s = None \<longrightarrow> decrypt R cfg s = s)
       \<and> (\<forall>s v. json_parse R s = Some v \<and> decipher R cfg v = None \<longrightarrow> decrypt R cfg s = s)
       \<and> (\<forall>s v y. json_parse R s = Some v \<and> decipher R cfg v = Some y
             \<longrightarrow> decrypt R cfg s = y)
       \<and> (\<forall>encrypted t t' s.
             gcm_encrypt R (encryptionKey cfg) iv x = Some (encrypted, t)
             \<and> length (hex_bytes t) = 16 \<and> length (hex_bytes t') = 16
             \<and> hex_bytes t' \<noteq> hex_bytes t
             \<and> json_parse R s = Some (envelope encrypted iv t')
             \<longrightarrow> decipher R cfg (envelope encrypted iv t') = None \<and> decrypt R cfg s = s)"
proof (intro conjI allI impI)
  show "decrypt R cfg (encrypt R cfg iv x) = x"
    using assms(1) by (rule decrypt_encrypt)
next
  fix s assume "json_parse R s = None"
  then show "decrypt R cfg s = s" by (rule decrypt_not_json)
next
  fix s v assume "json_parse R s = Some v \<and> decipher R cfg v = None"
  then show "decrypt R cfg s = s" by (simp add: decrypt_decipher_fails)
next
  fix s v y assume "json_parse R s = Some v \<and> decipher R cfg v = Some y"
  then show "decrypt R cfg s = y" by (simp add: decrypt_decipher_accepts)
next
  fix encrypted t t' s
  assume a: "gcm_encrypt R (encryptionKey cfg) iv x = Some (encrypted, t)
      \<and> length (hex_bytes t) = 16 \<and> length (hex_bytes t') = 16
      \<and> hex_bytes t' \<noteq> hex_bytes t
      \<and> json_parse R s = Some (envelope encrypted iv t')"
  then have n: "decipher R cfg (envelope encrypted iv t') = None"
    using assms by (intro decipher_other_tag [of R cfg iv x encrypted t]) simp_all
  then show "decipher R cfg (envelope encrypted iv t') = None" .
  from a n show "decrypt R cfg s = s" by (simp add: decrypt_decipher_fails)
qed

lemma ref_simps [simp]:
  "json_stringify ref_runtime = ref_stringify"
  "json_parse ref_runtime = ref_parse"
  "gcm_encrypt ref_runtime = ref_encrypt"
  "gcm_decrypt ref_runtime = ref_decrypt"
  "readdir_order ref_runtime = sort"
  by (simp_all add: ref_runtime_def)

lemma ref_cipher_inverts:
  "cipher_inverts ref_runtime cfg iv x"
  by (auto simp: cipher_inverts_def ref_encrypt_def ref_decrypt_def ref_parse_stringify
      decipher_def split: option.splits sum.splits jsval.splits)

lemma hex_simps [simp]:
  "json_stringify hex_runtime = ref_stringify"
  "json_parse hex_runtime = ref_parse"
  "gcm_encrypt hex_runtime = hex_encrypt"
  "gcm_decrypt hex_runtime = hex_decrypt"
  by (simp_all add: hex_runtime_def ref_runtime_def)

lemma hex_cipher_inverts:
  assumes "length (hex_bytes (encryptionKey cfg)) = 32" and "hex_bytes iv \<noteq> []"
  shows "cipher_inverts hex_runtime cfg iv x"
  using assms
  by (simp add: cipher_inverts_def hex_encrypt_def hex_decrypt_def ref_parse_stringify)

lemma hex_tag_authenticates: "tag_authenticates hex_runtime cfg"
  by (simp add: tag_authenticates_def hex_decrypt_def)

lemma hex_key_bytes:
  "length (hex_bytes (encryptionKey hex_config)) = 32"
  "hex_bytes (take 32 (encryptionKey hex_config))
     = [0, 17, 34, 51, 68, 85, 102, 119, 136, 153, 170, 187, 204, 221, 238, 255]"
  "hex_bytes sample_iv \<noteq> []"
  "hex_bytes ''00000000000000000000000000000000''
     = [0, 0, 0, 0, 0, 0, 0, 0, 0, 0, 0, 0, 0, 0, 0, 0]"
  "hex_bytes [] = []"
  by (simp_all add: hex_config_def sample_iv_def hex_val_def)

theorem decrypt_roundtrip_or_passthrough_witness:
  "cipher_inverts hex_runtime hex_config sample_iv ''secret''
   \<and> tag_authenticates hex_runtime hex_config
   \<and> decrypt hex_runtime hex_config (encrypt hex_runtime hex_config sample_iv ''secret'')
       = ''secret''
   \<and> gcm_encrypt hex_runtime (encryptionKey hex_config) sample_iv ''secret''
       = Some (''terces'', ''00112233445566778899aabbccddeeff'')
   \<and> decrypt hex_runtime hex_config
        (ref_stringify (envelope ''terces'' sample_iv ''00000000000000000000000000000000''))
       = ref_stringify (envelope ''terces'' sample_iv ''00000000000000000000000000000000'')"
proof -
  have h: "cipher_inverts hex_runtime hex_config sample_iv ''secret''"
    by (rule hex_cipher_inverts) (simp_all add: hex_key_bytes)
  have g: "tag_authenticates hex_runtime hex_config"
    by (rule hex_tag_authenticates)
  have k: "take 32 (encryptionKey hex_config) = ''00112233445566778899aabbccddeeff''"
    by (simp add: hex_config_def)
  have e: "gcm_encrypt hex_runtime (encryptionKey hex_config) sample_iv ''secret''
      = Some (''terces'', ''00112233445566778899aabbccddeeff'')"
    by (simp add: hex_encrypt_def hex_key_bytes k)
  have t: "length (hex_bytes ''00112233445566778899aabbccddeeff'') = 16"
    by (simp add: hex_val_def)
  have t': "length (hex_bytes ''00000000000000000000000000000000'') = 16"
    by (simp add: hex_val_def)
  have ne: "hex_bytes ''00000000000000000000000000000000''
      \<noteq> hex_bytes ''00112233445566778899aabbccddeeff''"
    by (simp add: hex_val_def)
  have p: "json_parse hex_runtime
      (ref_stringify (envelope ''terces'' sample_iv ''00000000000000000000000000000000''))
      = Some (envelope ''terces'' sample_iv ''00000000000000000000000000000000'')"
    by (simp add: ref_parse_stringify)
  from decrypt_roundtrip_or_passthrough [OF h g] e t t' ne p
  have "decrypt hex_runtime hex_config (encrypt hex_runtime hex_config sample_iv ''secret'')
      = ''secret''"
    and "decrypt hex_runtime hex_config
        (ref_stringify (envelope ''terces'' sample_iv ''00000000000000000000000000000000''))
       = ref_stringify (envelope ''terces'' sample_iv ''00000000000000000000000000000000'')"
    by blast+
  with h g e show ?thesis by blast
qed

text \<open>
  C1, as stated, fails: a tampered envelope is not a failure of \<open>_decrypt\<close>. Under a 32-byte
  key, an envelope whose tag has been emptied and one whose tag has been overwritten
  with zeros make the decipher throw (the first at \<open>setAuthTag\<close>, the second at
  \<open>final\<close>), and \<open>_decrypt\<close> returns normally: its result is the tampered text.
\<close>

theorem decrypt_tampered_passes_through:
  "decipher hex_runtime hex_config (envelope ''00'' sample_iv []) = None
   \<and> decrypt hex_runtime hex_config (ref_stringify (envelope ''00'' sample_iv []))
     = ref_stringify (envelope ''00'' sample_iv [])
   \<and> decipher hex_runtime hex_config
        (envelope ''00'' sample_iv ''00000000000000000000000000000000'') = None
   \<and> decrypt hex_runtime hex_config
        (ref_stringify (envelope ''00'' sample_iv ''00000000000000000000000000000000''))
     = ref_stringify (envelope ''00'' sample_iv ''00000000000000000000000000000000'')"
  by (simp add: decrypt_def decipher_envelope hex_decrypt_def hex_config_def sample_iv_def
      hex_val_def ref_parse_stringify)

lemma loadContext_memory_hit:
  "map_of (contexts v) cid = Some c \<Longrightarrow> loadContext R v d cid = (c, v)"
  by (simp add: loadContext_def)

lemma loadContext_miss:
  assumes "map_of (contexts v) cid = None"
  shows "loadContext R v d cid =
           (if \<not> memoryOnly v \<and> truthy (loadContextFromDisk R v d cid)
            then (loadContextFromDisk R v d cid,
                  v\<lparr>contexts := AList.update cid (loadContextFromDisk R v d cid) (contexts v)\<rparr>)
            else (JNull, v))"
  using assms by (simp add: loadContext_def Let_def)

text \<open>
  C4, as the code has it. For an id that is not held in memory, \<open>loadContext\<close> returns
  \<open>null\<close> and leaves the Vault unchanged when the Vault is memory-only, when the
  persisted unit is absent or empty, and when the text that \<open>_decrypt\<close> hands back (the
  decrypted payload, or the stored text itself when decryption fails) does not
  deserialize, or deserializes to a falsy value. Every failure of reading, decrypting
  and deserializing is a branch of \<open>loadContext\<close> that returns: nothing is raised.
\<close>

theorem loadContext_null_cases:
  assumes "map_of (contexts v) cid = None"
  shows "(memoryOnly v \<longrightarrow> loadContext R v d cid = (JNull, v))
       \<and> (map_of (ctx_dir d) (to_string cid @ ''.ctx'') = None
            \<longrightarrow> loadContext R v d cid = (JNull, v))
       \<and> (map_of (ctx_dir d) (to_string cid @ ''.ctx'') = Some []
            \<longrightarrow> loadContext R v d cid = (JNull, v))
       \<and> (\<forall>stored. map_of (ctx_dir d) (to_string cid @ ''.ctx'') = Some stored
              \<and> json_parse R (if encryptionEnabled (config v) then decrypt R (config v) stored
                               else stored) = None
            \<longrightarrow> loadContext R v d cid = (JNull, v))
       \<and> (\<forall>stored c. map_of (ctx_dir d) (to_string cid @ ''.ctx'') = Some stored
              \<and> json_parse R (if encryptionEnabled (config v) then decrypt R (config v) stored
                               else stored) = Some c
              \<and> \<not> truthy c
            \<longrightarrow> loadContext R v d cid = (JNull, v))"
  using assms
  by (auto simp: loadContext_miss loadContextFromDisk_def Let_def)

lemma ref_parse_garbage: "ref_parse ''not json'' = None"
  by (simp add: ref_parse_def eval_nat_numeral)

lemma fresh_simps [simp]:
  "config (StateVault_new cfg ok) = cfg"
  "contexts (StateVault_new cfg ok) = []"
  "memoryOnly (StateVault_new cfg ok) = (\<not> ok)"
  "backupTimer (StateVault_new cfg ok) = backupEnabled cfg"
  by (simp_all add: StateVault_new_def)

theorem loadContext_null_cases_witness:
  "map_of (contexts (StateVault_new sample_config True)) (JStr ''c1'') = None
   \<and> loadContext ref_runtime (StateVault_new sample_config True) empty_disk (JStr ''c1'')
       = (JNull, StateVault_new sample_config True)
   \<and> loadContext ref_runtime (StateVault_new sample_config True)
         \<lparr>ctx_dir = [(''c1.ctx'', ''not json'')], backup_dir = []\<rparr> (JStr ''c1'')
       = (JNull, StateVault_new sample_config True)"
proof -
  let ?v = "StateVault_new sample_config True"
  let ?d = "\<lparr>ctx_dir = [(''c1.ctx'', ''not json'')], backup_dir = []\<rparr>"
  have h: "map_of (contexts ?v) (JStr ''c1'') = None"
    by simp
  have a: "map_of (ctx_dir empty_disk) (to_string (JStr ''c1'') @ ''.ctx'') = None"
    by (simp add: empty_disk_def)
  have b: "map_of (ctx_dir ?d) (to_string (JStr ''c1'') @ ''.ctx'') = Some ''not json''
      \<and> json_parse ref_runtime (if encryptionEnabled (config ?v)
            then decrypt ref_runtime (config ?v) ''not json'' else ''not json'') = None"
    by (simp add: decrypt_def ref_parse_garbage)
  from loadContext_null_cases [OF h, where d = empty_disk and R = ref_runtime] a
  have 1: "loadContext ref_runtime ?v empty_disk (JStr ''c1'') = (JNull, ?v)"
    by blast
  from loadContext_null_cases [OF h, where d = ?d and R = ref_runtime] b
  have 2: "loadContext ref_runtime ?v ?d (JStr ''c1'') = (JNull, ?v)"
    by blast
  from h 1 2 show ?thesis by blast
qed

lemma loadContext_ref_passthrough:
  assumes "decipher ref_runtime cfg c = None" and "truthy c" and "encryptionEnabled cfg"
  shows "loadContext ref_runtime (StateVault_new cfg True)
           \<lparr>ctx_dir = [(to_string cid @ ''.ctx'', ref_stringify c)], backup_dir = []\<rparr> cid
         = (c, (StateVault_new cfg True)\<lparr>contexts := [(cid, c)]\<rparr>)"
proof -
  have "decrypt ref_runtime cfg (ref_stringify c) = ref_stringify c"
    using assms(1) by (simp add: decrypt_def ref_parse_stringify)
  then have "loadContextFromDisk ref_runtime (StateVault_new cfg True)
      \<lparr>ctx_dir = [(to_string cid @ ''.ctx'', ref_stringify c)], backup_dir = []\<rparr> cid = c"
    using assms(3)
    by (simp add: loadContextFromDisk_def ref_parse_stringify ref_stringify_not_Nil)
  then show ?thesis
    using assms(2) by (simp add: loadContext_def)
qed

text \<open>
  C4, as stated, fails: content that fails to decrypt is not always answered with
  \<open>null\<close>. With encryption on, a unit holding the plain JSON of a context is loaded
  through the fall-back of \<open>_decrypt\<close>; and a unit holding an envelope with a forged tag
  comes back as the envelope object itself, which is stored in the map as if it were
  a context.
\<close>

theorem loadContext_returns_undecryptable:
  "decipher ref_runtime sample_config (envelope ''terces'' ''iv'' ''forged'') = None
   \<and> loadContext ref_runtime (StateVault_new sample_config True)
         \<lparr>ctx_dir = [(''c1.ctx'', ref_stringify (envelope ''terces'' ''iv'' ''forged''))],
           backup_dir = []\<rparr> (JStr ''c1'')
       = (envelope ''terces'' ''iv'' ''forged'',
          (StateVault_new sample_config True)
            \<lparr>contexts := [(JStr ''c1'', envelope ''terces'' ''iv'' ''forged'')]\<rparr>)
   \<and> decipher ref_runtime sample_config sample_context = None
   \<and> loadContext ref_runtime (StateVault_new sample_config True)
         \<lparr>ctx_dir = [(''c1.ctx'', ref_stringify sample_context)], backup_dir = []\<rparr> (JStr ''c1'')
       = (sample_context,
          (StateVault_new sample_config True)\<lparr>contexts := [(JStr ''c1'', sample_context)]\<rparr>)"
proof -
  have e: "encryptionEnabled sample_config"
    by (simp add: sample_config_def)
  have a: "decipher ref_runtime sample_config (envelope ''terces'' ''iv'' ''forged'') = None"
    by (simp add: decipher_def envelope_def ref_decrypt_def sample_config_def)
  have b: "decipher ref_runtime sample_config sample_context = None"
    by (simp add: decipher_def sample_context_def ref_decrypt_def)
  have ta: "truthy (envelope ''terces'' ''iv'' ''forged'')"
    by (simp add: envelope_def)
  have tb: "truthy sample_context"
    by (simp add: sample_context_def)
  from loadContext_ref_passthrough [OF a ta e, of "JStr ''c1''"]
    loadContext_ref_passthrough [OF b tb e, of "JStr ''c1''"] a b
  show ?thesis by simp
qed

subsection \<open>Rotation: lists, names and directories\<close>

lemma sort_filter_perm:
  fixes xs ys :: "'a::linorder list"
  assumes "mset ys = mset xs"
  shows "sort (filter P ys) = sort (filter P xs)"
proof (rule properties_for_sort)
  show "mset (sort (filter P xs)) = mset (filter P ys)"
    using assms by simp
  show "sorted (sort (filter P xs))"
    by simp
qed

lemma sort_snoc_greatest:
  fixes n :: "'a::linorder"
  assumes "\<And>x. x \<in> set xs \<Longrightarrow> x \<le> n"
  shows "sort (xs @ [n]) = sort xs @ [n]"
proof (rule properties_for_sort)
  show "mset (sort xs @ [n]) = mset (xs @ [n])"
    by simp
  show "sorted (sort xs @ [n])"
    using assms by (simp add: sorted_append)
qed

lemma filter_notin_take:
  assumes "distinct xs"
  shows "filter (\<lambda>x. x \<notin> set (take k xs)) xs = drop k xs"
proof -
  have disj: "set (take k xs) \<inter> set (drop k xs) = {}"
    using assms by (rule set_take_disj_set_drop_if_distinct) simp
  have a: "filter (\<lambda>x. x \<notin> set (take k xs)) (take k xs) = []"
    by (simp add: filter_empty_conv)
  have b: "filter (\<lambda>x. x \<notin> set (take k xs)) (drop k xs) = drop k xs"
    using disj by (auto simp: filter_id_conv)
  have "filter (\<lambda>x. x \<notin> set (take k xs)) xs
      = filter (\<lambda>x. x \<notin> set (take k xs)) (take k xs @ drop k xs)"
    by simp
  also have "\<dots> = drop k xs"
    unfolding filter_append a b by simp
  finally show ?thesis .
qed

lemma clean_loop_eq:
  "clean_loop m fs al = foldl unlinkSync al (take (length fs - nat m) fs)"
proof (induction fs arbitrary: al)
  case Nil
  then show ?case by simp
next
  case (Cons f fs)
  show ?case
  proof (cases "int (length (f # fs)) > m")
    case True
    then have "length (f # fs) - nat m = Suc (length fs - nat m)"
      by auto
    with True Cons show ?thesis by simp
  next
    case False
    then have "length (f # fs) - nat m = 0"
      by auto
    with False show ?thesis by simp
  qed
qed

lemma names_foldl_unlink:
  "map fst (foldl unlinkSync al xs) = filter (\<lambda>n. n \<notin> set xs) (map fst al)"
proof (induction xs arbitrary: al)
  case Nil
  then show ?case by simp
next
  case (Cons x xs)
  have "map fst (unlinkSync al x) = filter (\<lambda>n. n \<noteq> x) (map fst al)"
    by (simp add: unlinkSync_def delete_keys removeAll_filter_not_eq)
      (rule filter_cong, auto)
  then show ?case
    by (simp add: Cons.IH)
qed

lemma map_of_foldl_unlink:
  "map_of (foldl unlinkSync al xs) k = (if k \<in> set xs then None else map_of al k)"
proof (induction xs arbitrary: al)
  case Nil
  then show ?case by simp
next
  case (Cons x xs)
  then show ?case
    by (simp add: unlinkSync_def delete_conv')
qed

lemma lastn_lastn_append: "lastn k (lastn k xs @ ys) = lastn k (xs @ ys)"
proof (cases "k \<le> length xs")
  case True
  then have "length xs + length ys - k = length ys + (length xs - k)"
    by simp
  with True show ?thesis
    by (simp add: lastn_def)
next
  case False
  then show ?thesis
    by (simp add: lastn_def)
qed

lemma lastn_append_ge: "k \<le> length ys \<Longrightarrow> lastn k (xs @ ys) = lastn k ys"
  by (simp add: lastn_def)

lemma lastn_map: "lastn k (map f xs) = map f (lastn k xs)"
  by (simp add: lastn_def drop_map)

lemma lastn_not_Nil: "0 < k \<Longrightarrow> xs \<noteq> [] \<Longrightarrow> lastn k xs \<noteq> []"
  by (cases xs) (auto simp: lastn_def)

lemma last_lastn: "0 < k \<Longrightarrow> xs \<noteq> [] \<Longrightarrow> last (lastn k xs) = last xs"
  using lastn_not_Nil [of k xs] by (simp add: lastn_def last_drop)


lemma lists_in_name_order_all: "lists_in_name_order R \<Longrightarrow> lists_all_names R"
  by (simp add: lists_in_name_order_def lists_all_names_def)

lemma distinct_bak_names: "distinct (map fst al) \<Longrightarrow> distinct (bak_names al)"
  by (simp add: bak_names_def)

lemma cleanOldBackups_dir:
  assumes "lists_all_names R"
  shows "backup_dir (cleanOldBackups R v d) =
           foldl unlinkSync (backup_dir d)
             (take (length (sort (bak_names (backup_dir d))) - nat (maxBackups (config v)))
                (sort (bak_names (backup_dir d))))"
proof -
  have "sort (filter (\<lambda>f. endsWith f ''.bak'') (readdirSync R (backup_dir d)))
      = sort (bak_names (backup_dir d))"
    unfolding readdirSync_def bak_names_def
    using assms by (intro sort_filter_perm) (simp add: lists_all_names_def)
  then show ?thesis
    by (simp add: cleanOldBackups_def clean_loop_eq Let_def)
qed

lemma cleanOldBackups_ctx_dir [simp]: "ctx_dir (cleanOldBackups R v d) = ctx_dir d"
  by (simp add: cleanOldBackups_def Let_def)

lemma cleanOldBackups_bak_names:
  assumes "lists_all_names R" and "distinct (map fst (backup_dir d))"
  shows "sort (bak_names (backup_dir (cleanOldBackups R v d)))
           = lastn (nat (maxBackups (config v))) (sort (bak_names (backup_dir d)))"
proof -
  let ?F = "sort (bak_names (backup_dir d))"
  let ?k = "length ?F - nat (maxBackups (config v))"
  have "bak_names (backup_dir (cleanOldBackups R v d))
      = filter (\<lambda>n. n \<notin> set (take ?k ?F)) (bak_names (backup_dir d))"
    unfolding cleanOldBackups_dir [OF assms(1)] bak_names_def names_foldl_unlink
    by (simp add: conj_commute)
  then have "sort (bak_names (backup_dir (cleanOldBackups R v d)))
      = filter (\<lambda>n. n \<notin> set (take ?k ?F)) ?F"
    by (simp add: filter_sort)
  also have "\<dots> = drop ?k ?F"
    using assms(2) by (intro filter_notin_take) (simp add: distinct_bak_names)
  finally show ?thesis
    by (simp add: lastn_def)
qed

lemma cleanOldBackups_distinct:
  assumes "lists_all_names R" and "distinct (map fst (backup_dir d))"
  shows "distinct (map fst (backup_dir (cleanOldBackups R v d)))"
  unfolding cleanOldBackups_dir [OF assms(1)] names_foldl_unlink
  using assms(2) by simp

lemma cleanOldBackups_map_of:
  assumes "lists_all_names R"
  shows "map_of (backup_dir (cleanOldBackups R v d)) f =
           (if f \<in> set (take (length (sort (bak_names (backup_dir d)))
                               - nat (maxBackups (config v)))
                          (sort (bak_names (backup_dir d))))
            then None else map_of (backup_dir d) f)"
  unfolding cleanOldBackups_dir [OF assms] map_of_foldl_unlink ..

lemma names_writeFileSync:
  "map fst (writeFileSync al f c) =
     (if f \<in> set (map fst al) then map fst al else map fst al @ [f])"
  by (simp add: writeFileSync_def update_keys)

lemma distinct_writeFileSync:
  "distinct (map fst al) \<Longrightarrow> distinct (map fst (writeFileSync al f c))"
  by (simp add: writeFileSync_def distinct_update)

lemma map_of_writeFileSync: "map_of (writeFileSync al f c) f = Some c"
  by (simp add: writeFileSync_def update_conv')

lemma bak_names_writeFileSync:
  assumes "endsWith f ''.bak''"
  shows "bak_names (writeFileSync al f c) =
           (if f \<in> set (bak_names al) then bak_names al else bak_names al @ [f])"
  using assms by (auto simp: bak_names_def names_writeFileSync)

lemma backup_disk:
  assumes "\<not> memoryOnly v"
  shows "snd (backup R now iv v d) =
           cleanOldBackups R v
             (d\<lparr>backup_dir := writeFileSync (backup_dir d) (backup_name now)
                  (if encryptionEnabled (config v)
                   then encrypt R (config v) iv (json_stringify R (backupData now v))
                   else json_stringify R (backupData now v))\<rparr>)"
  using assms by (simp add: backup_def Let_def)

lemma endsWith_backup_name: "endsWith (backup_name t) ''.bak''"
  by (simp add: endsWith_def backup_name_def)

lemma dec_small: "n < 10 \<Longrightarrow> dec n = [digit_char n]"
  by (subst dec.simps) simp

lemma dec_big: "\<not> n < 10 \<Longrightarrow> dec n = dec (n div 10) @ [digit_char (n mod 10)]"
  by (subst dec.simps) simp

lemma divmod_less:
  fixes a b :: nat
  assumes "a < b"
  shows "a div 10 < b div 10 \<or> (a div 10 = b div 10 \<and> a mod 10 < b mod 10)"
proof (cases "a div 10 < b div 10")
  case True
  then show ?thesis by simp
next
  case False
  have le: "a div 10 \<le> b div 10"
    using assms by (simp add: div_le_mono)
  with False have eq: "a div 10 = b div 10" by simp
  have "a = 10 * (a div 10) + a mod 10" "b = 10 * (b div 10) + b mod 10"
    by simp_all
  with assms eq have "a mod 10 < b mod 10"
    by linarith
  with eq show ?thesis by simp
qed


lemma of_char_digit_char: "d < 10 \<Longrightarrow> (of_char (digit_char d) :: nat) = 48 + d"
  by (drule lt10_cases) (auto simp: digit_char_def)

lemma digit_char_less: "d < e \<Longrightarrow> e < 10 \<Longrightarrow> digit_char d < digit_char e"
  by (simp add: less_char_def of_char_digit_char)

lemma length_dec_pos: "0 < length (dec n)"
  using dec_not_Nil [of n] by simp

lemma dec_less:
  "a < b \<Longrightarrow> length (dec a) = length (dec b) \<Longrightarrow> dec a < dec b"
proof (induction a arbitrary: b rule: dec.induct)
  case (1 a)
  show ?case
  proof (cases "a < 10")
    case True
    have "b < 10"
    proof (rule ccontr)
      assume nb: "\<not> b < 10"
      have "length (dec a) = 1"
        using True by (simp add: dec_small)
      moreover have "length (dec b) = Suc (length (dec (b div 10)))"
        using nb by (simp add: dec_big)
      ultimately show False
        using "1.prems"(2) length_dec_pos [of "b div 10"] by simp
    qed
    with True "1.prems"(1) show ?thesis
      by (simp add: dec_small digit_char_less)
  next
    case False
    with "1.prems"(1) have b: "\<not> b < 10" by simp
    have da: "dec a = dec (a div 10) @ [digit_char (a mod 10)]"
      using False by (rule dec_big)
    have db: "dec b = dec (b div 10) @ [digit_char (b mod 10)]"
      using b by (rule dec_big)
    have len: "length (dec (a div 10)) = length (dec (b div 10))"
      using "1.prems"(2) by (simp add: da db)
    from divmod_less [OF "1.prems"(1)] show ?thesis
    proof
      assume lt: "a div 10 < b div 10"
      have "dec (a div 10) < dec (b div 10)"
        using False lt len by (rule "1.IH")
      then have "(dec (a div 10), dec (b div 10)) \<in> lexord {(u, v). u < v}"
        by (simp add: list_less_def)
      then have "(dec (a div 10) @ [digit_char (a mod 10)],
          dec (b div 10) @ [digit_char (b mod 10)]) \<in> lexord {(u, v). u < v}"
        using len by (intro lexord_sufI) simp_all
      then show ?thesis
        by (simp only: da db list_less_def)
    next
      assume eq: "a div 10 = b div 10 \<and> a mod 10 < b mod 10"
      then have "digit_char (a mod 10) < digit_char (b mod 10)"
        by (intro digit_char_less) simp_all
      then have "(dec (b div 10) @ [digit_char (a mod 10)],
          dec (b div 10) @ [digit_char (b mod 10)]) \<in> lexord {(u, v). u < v}"
        by (simp add: lexord_same_pref_iff)
      then show ?thesis
        using eq by (simp only: da db list_less_def)
    qed
  qed
qed


lemma backup_name_less:
  assumes "a < b" and "length (dec a) = length (dec b)"
  shows "backup_name a < backup_name b"
proof -
  have "(dec a, dec b) \<in> lexord {(u, v). u < v}"
    using dec_less [OF assms] by (simp add: list_less_def)
  then have "(dec a @ ''.bak'', dec b @ ''.bak'') \<in> lexord {(u, v). u < v}"
    using assms(2) by (intro lexord_sufI) simp_all
  then have "(''backup_'' @ dec a @ ''.bak'', ''backup_'' @ dec b @ ''.bak'')
      \<in> lexord {(u, v). u < v}"
    by (rule lexord_append_leftI)
  then show ?thesis
    by (simp add: backup_name_def list_less_def)
qed

lemma backup_step_bak_names:
  assumes "\<not> memoryOnly v" and "lists_all_names R"
    and "distinct (map fst (backup_dir d))"
    and "\<And>f. f \<in> set (bak_names (backup_dir d)) \<Longrightarrow> f < backup_name now"
  shows "sort (bak_names (backup_dir (snd (backup R now iv v d))))
           = lastn (nat (maxBackups (config v)))
               (sort (bak_names (backup_dir d)) @ [backup_name now])"
proof -
  let ?al = "writeFileSync (backup_dir d) (backup_name now)
      (if encryptionEnabled (config v)
       then encrypt R (config v) iv (json_stringify R (backupData now v))
       else json_stringify R (backupData now v))"
  have new: "backup_name now \<notin> set (bak_names (backup_dir d))"
    using assms(4) by blast
  have "bak_names ?al = bak_names (backup_dir d) @ [backup_name now]"
    using new by (simp add: bak_names_writeFileSync [OF endsWith_backup_name])
  moreover have "sort (bak_names (backup_dir d) @ [backup_name now])
      = sort (bak_names (backup_dir d)) @ [backup_name now]"
    using assms(4) by (intro sort_snoc_greatest) (simp add: less_imp_le)
  moreover have "distinct (map fst ?al)"
    using assms(3) by (rule distinct_writeFileSync)
  ultimately show ?thesis
    using cleanOldBackups_bak_names [OF assms(2), of "d\<lparr>backup_dir := ?al\<rparr>" v]
    by (simp add: backup_disk [OF assms(1)])
qed

lemma backup_step_distinct:
  assumes "\<not> memoryOnly v" and "lists_all_names R"
    and "distinct (map fst (backup_dir d))"
  shows "distinct (map fst (backup_dir (snd (backup R now iv v d))))"
  unfolding backup_disk [OF assms(1)]
  using assms(3) by (intro cleanOldBackups_distinct [OF assms(2)]) (simp add: distinct_writeFileSync)

lemma sorted_wrt_lastn_append:
  assumes "sorted_wrt P (xs @ ys)"
  shows "sorted_wrt P (lastn k xs @ ys)"
proof -
  have "sorted_wrt P (drop (length xs - k) (xs @ ys))"
    using assms by (rule sorted_wrt_drop)
  then show ?thesis
    by (simp add: lastn_def)
qed

lemma length_lastn_le: "length (lastn k xs) \<le> k"
  by (simp add: lastn_def)

lemma lastn_id: "length xs \<le> k \<Longrightarrow> lastn k xs = xs"
  by (simp add: lastn_def)

lemma backup_run_bak_names:
  assumes "\<not> memoryOnly v" and "lists_all_names R"
  shows "distinct (map fst (backup_dir d)) \<Longrightarrow>
         sorted_wrt (<) (sort (bak_names (backup_dir d)) @ map (\<lambda>c. backup_name (fst c)) calls) \<Longrightarrow>
         calls \<noteq> [] \<or> length (bak_names (backup_dir d)) \<le> nat (maxBackups (config v)) \<Longrightarrow>
         sort (bak_names (backup_dir (backup_run R v calls d)))
           = lastn (nat (maxBackups (config v)))
               (sort (bak_names (backup_dir d)) @ map (\<lambda>c. backup_name (fst c)) calls)"
proof (induction calls arbitrary: d)
  case Nil
  then show ?case
    by (simp add: lastn_id)
next
  case (Cons c calls)
  obtain now iv where c: "c = (now, iv)" by (cases c)
  let ?d = "snd (backup R now iv v d)"
  let ?S = "sort (bak_names (backup_dir d))"
  have below: "f < backup_name now" if "f \<in> set (bak_names (backup_dir d))" for f
    using Cons.prems(2) that by (auto simp: c sorted_wrt_append)
  have step: "sort (bak_names (backup_dir ?d))
      = lastn (nat (maxBackups (config v))) (?S @ [backup_name now])"
    using assms Cons.prems(1) below by (rule backup_step_bak_names)
  have dist: "distinct (map fst (backup_dir ?d))"
    using assms Cons.prems(1) by (rule backup_step_distinct)
  have "sorted_wrt (<) ((?S @ [backup_name now]) @ map (\<lambda>c. backup_name (fst c)) calls)"
    using Cons.prems(2) by (simp add: c)
  then have srt: "sorted_wrt (<) (sort (bak_names (backup_dir ?d))
      @ map (\<lambda>c. backup_name (fst c)) calls)"
    unfolding step by (rule sorted_wrt_lastn_append)
  have "length (sort (bak_names (backup_dir ?d))) \<le> nat (maxBackups (config v))"
    unfolding step by (rule length_lastn_le)
  then have small: "calls \<noteq> [] \<or> length (bak_names (backup_dir ?d)) \<le> nat (maxBackups (config v))"
    by simp
  show ?case
    using Cons.IH [OF dist srt small]
    by (simp add: c step lastn_lastn_append)
qed

lemma length_lastn: "k \<le> length xs \<Longrightarrow> length (lastn k xs) = k"
  by (simp add: lastn_def)

text \<open>
  C5, as the code has it. Let \<open>maxBackups = N\<close>, and let more than \<open>N\<close> successful
  \<open>backup()\<close> calls run at strictly increasing clock readings that have the same
  number of decimal digits, on a backups directory whose earlier snapshot names sort
  below the new ones. Then exactly \<open>N\<close> snapshot units remain, and they are those of
  the \<open>N\<close> latest calls: each rotation removes the first names in sorted order until no
  more than \<open>N\<close> are left.
\<close>

theorem backup_rotation_keeps_newest:
  assumes "\<not> memoryOnly v" and "lists_all_names R"
    and "distinct (map fst (backup_dir d))"
    and "maxBackups (config v) = int N"
    and "N < length calls"
    and "sorted_wrt (<) (map fst calls)"
    and "list_all (\<lambda>c. length (dec (fst c)) = w) calls"
    and "list_all (\<lambda>f. list_all (\<lambda>c. f < backup_name (fst c)) calls)
           (bak_names (backup_dir d))"
  shows "sort (bak_names (backup_dir (backup_run R v calls d)))
           = map (\<lambda>c. backup_name (fst c)) (lastn N calls)
       \<and> length (bak_names (backup_dir (backup_run R v calls d))) = N"
proof -
  let ?S = "sort (bak_names (backup_dir d))"
  let ?names = "map (\<lambda>c. backup_name (fst c)) calls"
  have s1: "sorted_wrt (<) ?S"
    using assms(3) by (simp add: strict_sorted_iff distinct_bak_names)
  have "sorted_wrt (\<lambda>x y. fst x < fst y) calls"
    using assms(6) by (simp add: sorted_wrt_map)
  then have "sorted_wrt (\<lambda>x y. backup_name (fst x) < backup_name (fst y)) calls"
  proof (rule sorted_wrt_mono_rel [rotated])
    fix x y
    assume "x \<in> set calls" and "y \<in> set calls" and "fst x < fst y"
    moreover from this assms(7) have "length (dec (fst x)) = length (dec (fst y))"
      by (simp add: list_all_iff)
    ultimately show "backup_name (fst x) < backup_name (fst y)"
      by (intro backup_name_less)
  qed
  then have s2: "sorted_wrt (<) ?names"
    by (simp add: sorted_wrt_map)
  have s3: "\<forall>f\<in>set ?S. \<forall>n\<in>set ?names. f < n"
    using assms(8) by (auto simp: list_all_iff)
  have srt: "sorted_wrt (<) (?S @ ?names)"
    using s1 s2 s3 by (simp add: sorted_wrt_append)
  have ne: "calls \<noteq> [] \<or> length (bak_names (backup_dir d)) \<le> nat (maxBackups (config v))"
    using assms(5) by auto
  have "sort (bak_names (backup_dir (backup_run R v calls d)))
      = lastn N (?S @ ?names)"
    using backup_run_bak_names [OF assms(1,2,3) srt ne] by (simp add: assms(4))
  also have "\<dots> = lastn N ?names"
    using assms(5) by (intro lastn_append_ge) simp
  also have "\<dots> = map (\<lambda>c. backup_name (fst c)) (lastn N calls)"
    by (rule lastn_map)
  finally have eq: "sort (bak_names (backup_dir (backup_run R v calls d)))
      = map (\<lambda>c. backup_name (fst c)) (lastn N calls)" .
  have "length (bak_names (backup_dir (backup_run R v calls d)))
      = length (sort (bak_names (backup_dir (backup_run R v calls d))))"
    by simp
  also have "\<dots> = N"
    unfolding eq using assms(5) by (simp add: length_lastn)
  finally show ?thesis
    using eq by simp
qed

lemma ref_lists_in_name_order: "lists_in_name_order ref_runtime"
  by (simp add: lists_in_name_order_def)

lemma sample_simps:
  "\<not> memoryOnly sample_vault"
  "config sample_vault = sample_config"
  "maxBackups sample_config = 2"
  "encryptionEnabled sample_config"
  "encryptionKey sample_config = ''k''"
  "contexts sample_vault = [(JStr ''c1'', sample_context)]"
  "backup_dir empty_disk = []"
  "ctx_dir empty_disk = []"
  by (simp_all add: sample_vault_def sample_config_def empty_disk_def)

theorem backup_rotation_keeps_newest_witness:
  "sort (bak_names (backup_dir (backup_run ref_runtime sample_vault
      [(1000, ''a''), (1001, ''b''), (1002, ''c'')] empty_disk)))
     = [backup_name 1001, backup_name 1002]
   \<and> length (bak_names (backup_dir (backup_run ref_runtime sample_vault
      [(1000, ''a''), (1001, ''b''), (1002, ''c'')] empty_disk))) = 2"
proof -
  let ?calls = "[(1000, ''a''), (1001, ''b''), (1002, ''c'')] :: (nat \<times> string) list"
  have 1: "\<not> memoryOnly sample_vault" by (simp add: sample_simps)
  have 2: "lists_all_names ref_runtime"
    by (rule lists_in_name_order_all [OF ref_lists_in_name_order])
  have 3: "distinct (map fst (backup_dir empty_disk))" by (simp add: sample_simps)
  have 4: "maxBackups (config sample_vault) = int 2" by (simp add: sample_simps)
  have 5: "2 < length ?calls" by simp
  have 6: "sorted_wrt (<) (map fst ?calls)" by simp
  have 7: "list_all (\<lambda>c. length (dec (fst c)) = 4) ?calls"
    by (simp add: dec_big dec_small)
  have 8: "list_all (\<lambda>f. list_all (\<lambda>c. f < backup_name (fst c)) ?calls)
      (bak_names (backup_dir empty_disk))"
    by (simp add: sample_simps bak_names_def)
  from backup_rotation_keeps_newest [OF 1 2 3 4 5 6 7 8] show ?thesis
    by (simp add: lastn_def)
qed

text \<open>
  C5, as stated, fails: snapshot names are the clock readings in milliseconds, and
  nothing makes them unique. Three backups within one millisecond with
  \<open>maxBackups = 2\<close> write the same unit three times, and one snapshot remains, not two.
\<close>

theorem backup_same_millisecond_collides:
  "maxBackups (config sample_vault) = 2
   \<and> \<not> memoryOnly sample_vault
   \<and> bak_names (backup_dir (backup_run ref_runtime sample_vault
        [(1000, ''a''), (1000, ''b''), (1000, ''c'')] empty_disk)) = [backup_name 1000]
   \<and> backup_name 1000 = ''backup_1000.bak''"
proof -
  have n: "backup_name 1000 = ''backup_1000.bak''"
    by (simp add: backup_name_def dec_big dec_small digit_char_def)
  have m: "\<not> memoryOnly sample_vault" by (simp add: sample_simps)
  have p: "lists_all_names ref_runtime"
    by (rule lists_in_name_order_all [OF ref_lists_in_name_order])
  have step: "backup_dir (snd (backup ref_runtime 1000 iv sample_vault d))
      = [(backup_name 1000, encrypt ref_runtime sample_config iv
            (ref_stringify (backupData 1000 sample_vault)))]"
    if "backup_dir d = [] \<or> (\<exists>c. backup_dir d = [(backup_name 1000, c)])" for iv d
    using that
    by (auto simp: backup_disk [OF m] cleanOldBackups_dir [OF p] writeFileSync_def
        bak_names_def endsWith_backup_name sample_simps)
  have "backup_dir (backup_run ref_runtime sample_vault
        [(1000, ''a''), (1000, ''b''), (1000, ''c'')] empty_disk)
      = [(backup_name 1000, encrypt ref_runtime sample_config ''c''
            (ref_stringify (backupData 1000 sample_vault)))]"
    by (simp add: step sample_simps)
  then have "bak_names (backup_dir (backup_run ref_runtime sample_vault
        [(1000, ''a''), (1000, ''b''), (1000, ''c'')] empty_disk)) = [backup_name 1000]"
    by (simp add: bak_names_def endsWith_backup_name)
  with n show ?thesis
    by (simp add: sample_simps)
qed

subsection \<open>Shutdown and restore\<close>

lemma update_fresh: "k \<notin> fst ` set al \<Longrightarrow> AList.update k c al = al @ [(k, c)]"
  by (induction al) auto

lemma restore_each_well_keyed:
  "well_keyed m \<Longrightarrow> fst ` set acc \<inter> fst ` set m = {} \<Longrightarrow>
   restore_each (map snd m) acc = (True, acc @ m)"
proof (induction m arbitrary: acc)
  case Nil
  then show ?case by simp
next
  case (Cons kc m)
  obtain k c where kc: "kc = (k, c)" by (cases kc)
  from Cons.prems(1) have id: "prop_read c ''id'' = Inr k" and wk: "well_keyed m"
    and fresh: "k \<notin> fst ` set m"
    by (auto simp: well_keyed_def kc)
  from Cons.prems(2) have knew: "k \<notin> fst ` set acc"
    by (auto simp: kc)
  have "fst ` set (acc @ [(k, c)]) \<inter> fst ` set m = {}"
    using Cons.prems(2) fresh by (auto simp: kc)
  from Cons.IH [OF wk this] show ?case
    by (simp add: kc id update_fresh [OF knew])
qed

lemma sorted_le_last:
  fixes x :: "'a::linorder"
  shows "sorted xs \<Longrightarrow> x \<in> set xs \<Longrightarrow> x \<le> last xs"
proof (induction xs)
  case Nil
  then show ?case by simp
next
  case (Cons a xs)
  show ?case
  proof (cases "xs = []")
    case True
    with Cons.prems show ?thesis by simp
  next
    case False
    then have "last xs \<in> set xs" by simp
    with Cons False show ?thesis by auto
  qed
qed

lemma sorted_last_greatest:
  fixes x :: "'a::linorder"
  assumes "sorted xs" and "x \<in> set xs" and "\<And>y. y \<in> set xs \<Longrightarrow> y \<le> x"
  shows "last xs = x"
proof -
  have ne: "xs \<noteq> []" using assms(2) by auto
  have "last xs \<le> x"
    using ne by (intro assms(3)) simp
  moreover have "x \<le> last xs"
    using assms(1,2) by (rule sorted_le_last)
  ultimately show ?thesis by simp
qed

lemma last_notin_take:
  assumes "distinct xs" and "k < length xs"
  shows "last xs \<notin> set (take k xs)"
proof -
  have ne: "drop k xs \<noteq> []" using assms(2) by simp
  have "last (drop k xs) = last xs"
    using assms(2) by (simp add: last_drop)
  then have "last xs \<in> set (drop k xs)"
    using ne last_in_set [of "drop k xs"] by simp
  moreover have "set (take k xs) \<inter> set (drop k xs) = {}"
    using assms(1) by (rule set_take_disj_set_drop_if_distinct) simp
  ultimately show ?thesis by blast
qed

lemma stopAutoBackup_simps [simp]:
  "config (stopAutoBackup v) = config v"
  "contexts (stopAutoBackup v) = contexts v"
  "memoryOnly (stopAutoBackup v) = memoryOnly v"
  "backupTimer (stopAutoBackup v) = False"
  by (simp_all add: stopAutoBackup_def)

lemma backupData_stopAutoBackup [simp]:
  "backupData now (stopAutoBackup v) = backupData now v"
  by (simp add: backupData_def)

lemma shutdown_disk:
  assumes "\<not> memoryOnly v"
  shows "snd (shutdown R now iv v d) =
           cleanOldBackups R (stopAutoBackup v)
             (d\<lparr>backup_dir := writeFileSync (backup_dir d) (backup_name now)
                  (if encryptionEnabled (config v)
                   then encrypt R (config v) iv (json_stringify R (backupData now v))
                   else json_stringify R (backupData now v))\<rparr>)"
  using assms by (simp add: shutdown_def Let_def backup_disk)

text \<open>After a backup step in a name-ordered listing: the new snapshot is stored and listed last.\<close>

lemma final_snapshot_listed_last:
  assumes "lists_in_name_order R" and "distinct (map fst al)"
    and "list_all (\<lambda>f. f \<le> backup_name now) (bak_names al)"
    and "1 \<le> maxBackups (config v)"
    and d2_def: "d2 = cleanOldBackups R v
           (d\<lparr>backup_dir := writeFileSync al (backup_name now) stored\<rparr>)"
  shows "filter (\<lambda>f. endsWith f ''.bak'') (readdirSync R (backup_dir d2)) \<noteq> []"
    and "last (filter (\<lambda>f. endsWith f ''.bak'') (readdirSync R (backup_dir d2))) = backup_name now"
    and "map_of (backup_dir d2) (backup_name now) = Some stored"
proof -
  let ?n = "backup_name now"
  let ?al1 = "writeFileSync al ?n stored"
  let ?F1 = "sort (bak_names ?al1)"
  let ?N = "nat (maxBackups (config v))"
  have perm: "lists_all_names R"
    using assms(1) by (rule lists_in_name_order_all)
  have dist1: "distinct (map fst ?al1)"
    using assms(2) by (rule distinct_writeFileSync)
  have mem: "?n \<in> set ?F1"
    by (simp add: bak_names_writeFileSync [OF endsWith_backup_name])
  have le: "y \<le> ?n" if "y \<in> set ?F1" for y
    using that assms(3)
    by (auto simp: bak_names_writeFileSync [OF endsWith_backup_name] list_all_iff
        split: if_splits)
  have lastF1: "last ?F1 = ?n"
    using sorted_sort mem le by (rule sorted_last_greatest)
  have ne1: "?F1 \<noteq> []" using mem by (auto simp del: set_sort)
  have N: "0 < ?N" using assms(4) by simp
  have files: "filter (\<lambda>f. endsWith f ''.bak'') (readdirSync R (backup_dir d2))
      = lastn ?N ?F1"
  proof -
    have "filter (\<lambda>f. endsWith f ''.bak'') (readdirSync R (backup_dir d2))
        = sort (bak_names (backup_dir d2))"
      using assms(1)
      by (simp add: readdirSync_def lists_in_name_order_def bak_names_def filter_sort)
    also have "\<dots> = lastn ?N ?F1"
      unfolding d2_def using cleanOldBackups_bak_names [OF perm, of "d\<lparr>backup_dir := ?al1\<rparr>" v]
        dist1 by simp
    finally show ?thesis .
  qed
  show "filter (\<lambda>f. endsWith f ''.bak'') (readdirSync R (backup_dir d2)) \<noteq> []"
    unfolding files using N ne1 by (rule lastn_not_Nil)
  show "last (filter (\<lambda>f. endsWith f ''.bak'') (readdirSync R (backup_dir d2))) = ?n"
    unfolding files using last_lastn [OF N ne1] lastF1 by simp
  have "distinct ?F1"
    using dist1 by (simp add: distinct_bak_names)
  moreover have "length ?F1 - ?N < length ?F1"
    using N ne1 by (cases ?F1) auto
  ultimately have "last ?F1 \<notin> set (take (length ?F1 - ?N) ?F1)"
    by (rule last_notin_take)
  then show "map_of (backup_dir d2) ?n = Some stored"
    unfolding d2_def
    by (simp add: cleanOldBackups_map_of [OF perm] lastF1 map_of_writeFileSync)
qed

lemma prop_read_backupData:
  "prop_read (backupData now v) ''contexts'' = Inr (JArr (map snd (contexts v)))"
  by (simp add: backupData_def)

text \<open>
  C6, as the code has it. Take a Vault that is not memory-only, whose map entries are
  keyed by their contexts' own ids, with \<open>maxBackups\<close> at least \<open>1\<close>, on storage
  whose listings come in name order and whose existing snapshot names do not sort above
  the name of the snapshot about to be written; and let the libraries read back what
  they write for this snapshot. Then \<open>shutdown()\<close> cancels the timer and leaves one
  final snapshot on storage, and \<open>restore(null)\<close> on a fresh Vault with the same
  configuration over that storage returns \<open>true\<close> with exactly the pre-shutdown
  contexts.
\<close>

theorem shutdown_then_restore:
  assumes "\<not> memoryOnly v"
    and "well_keyed (contexts v)"
    and "1 \<le> maxBackups (config v)"
    and "lists_in_name_order R"
    and "distinct (map fst (backup_dir d))"
    and "list_all (\<lambda>f. f \<le> backup_name now) (bak_names (backup_dir d))"
    and "snapshot_readable R (config v) iv (backupData now v)"
  shows "\<not> backupTimer (fst (shutdown R now iv v d))
       \<and> map_of (backup_dir (snd (shutdown R now iv v d))) (backup_name now)
           = Some (if encryptionEnabled (config v)
                   then encrypt R (config v) iv (json_stringify R (backupData now v))
                   else json_stringify R (backupData now v))
       \<and> restore R None (StateVault_new (config v) True) (snd (shutdown R now iv v d))
           = (True, (StateVault_new (config v) True)\<lparr>contexts := contexts v\<rparr>)"
proof -
  let ?data = "json_stringify R (backupData now v)"
  let ?stored = "if encryptionEnabled (config v) then encrypt R (config v) iv ?data else ?data"
  let ?d2 = "snd (shutdown R now iv v d)"
  let ?files = "filter (\<lambda>f. endsWith f ''.bak'') (readdirSync R (backup_dir ?d2))"
  have d2: "?d2 = cleanOldBackups R (stopAutoBackup v)
      (d\<lparr>backup_dir := writeFileSync (backup_dir d) (backup_name now) ?stored\<rparr>)"
    using assms(1) by (rule shutdown_disk)
  have mb: "1 \<le> maxBackups (config (stopAutoBackup v))"
    using assms(3) by simp
  note fin = final_snapshot_listed_last [OF assms(4) assms(5) assms(6) mb d2]
  have parse: "json_parse R ?data = Some (backupData now v)"
    and nonempty: "?stored \<noteq> []"
    and cipher: "encryptionEnabled (config v) \<Longrightarrow> cipher_inverts R (config v) iv ?data"
    using assms(7) by (simp_all add: snapshot_readable_def Let_def split: if_splits)
  have plain: "encryptionEnabled (config v) \<Longrightarrow>
      decrypt R (config v) (encrypt R (config v) iv ?data) = ?data"
    using cipher by (simp add: decrypt_encrypt)
  have each: "restore_each (map snd (contexts v)) [] = (True, contexts v)"
    using restore_each_well_keyed [OF assms(2), of "[]"] by simp
  have timer: "\<not> backupTimer (fst (shutdown R now iv v d))"
    by (simp add: shutdown_def Let_def)
  have "restore R None (StateVault_new (config v) True) ?d2
      = (True, (StateVault_new (config v) True)\<lparr>contexts := contexts v\<rparr>)"
    using fin(1) nonempty
    by (simp add: restore_def Let_def fin(2) fin(3) plain parse prop_read_backupData each)
  with timer fin(3) show ?thesis
    by simp
qed

lemma ref_snapshot_readable:
  assumes "encryptionKey cfg \<noteq> []"
  shows "snapshot_readable ref_runtime cfg iv snap"
  using assms
  by (simp add: snapshot_readable_def Let_def ref_parse_stringify ref_stringify_not_Nil
      ref_cipher_inverts encrypt_def ref_encrypt_def)

theorem shutdown_then_restore_witness:
  "\<not> memoryOnly sample_vault
   \<and> well_keyed (contexts sample_vault)
   \<and> \<not> backupTimer (fst (shutdown ref_runtime 1000 ''iv'' sample_vault empty_disk))
   \<and> restore ref_runtime None (StateVault_new sample_config True)
        (snd (shutdown ref_runtime 1000 ''iv'' sample_vault empty_disk))
      = (True, (StateVault_new sample_config True)\<lparr>contexts := [(JStr ''c1'', sample_context)]\<rparr>)"
proof -
  have 1: "\<not> memoryOnly sample_vault" by (simp add: sample_simps)
  have 2: "well_keyed (contexts sample_vault)"
    by (simp add: sample_simps well_keyed_def sample_context_def)
  have 3: "1 \<le> maxBackups (config sample_vault)" by (simp add: sample_simps)
  have 4: "lists_in_name_order ref_runtime" by (rule ref_lists_in_name_order)
  have 5: "distinct (map fst (backup_dir empty_disk))" by (simp add: sample_simps)
  have 6: "list_all (\<lambda>f. f \<le> backup_name 1000) (bak_names (backup_dir empty_disk))"
    by (simp add: sample_simps bak_names_def)
  have 7: "snapshot_readable ref_runtime (config sample_vault) ''iv''
      (backupData 1000 sample_vault)"
    by (rule ref_snapshot_readable) (simp add: sample_simps)
  from shutdown_then_restore [OF 1 2 3 4 5 6 7] 1 2 show ?thesis
    by (simp add: sample_simps)
qed

text \<open>
  C6, as stated, fails: not every Vault backs up on shutdown. A memory-only Vault
  returns from \<open>backup()\<close> at its first line, so \<open>shutdown()\<close> writes nothing, and
  \<open>restore(null)\<close> on a fresh Vault finds no snapshot and returns \<open>false\<close> with an
  empty map.
\<close>

theorem shutdown_memory_only_writes_nothing:
  "memoryOnly (sample_vault\<lparr>memoryOnly := True\<rparr>)
   \<and> contexts (sample_vault\<lparr>memoryOnly := True\<rparr>) = [(JStr ''c1'', sample_context)]
   \<and> shutdown ref_runtime 1000 ''iv'' (sample_vault\<lparr>memoryOnly := True\<rparr>) empty_disk
       = (sample_vault\<lparr>memoryOnly := True, backupTimer := False\<rparr>, empty_disk)
   \<and> restore ref_runtime None (StateVault_new sample_config True) empty_disk
       = (False, StateVault_new sample_config True)
   \<and> contexts (StateVault_new sample_config True) = []"
  by (simp add: shutdown_def stopAutoBackup_def backup_def restore_def readdirSync_def
      Let_def sample_simps)

lemma list_all_update:
  assumes "list_all P al" and "P (k, c)"
  shows "list_all P (AList.update k c al)"
  using assms by (induction al) auto

text \<open>
  \<open>saveContext\<close> keeps the map keyed by the contexts' own ids.
\<close>

lemma saveContext_keeps_well_keyed:
  assumes "well_keyed (contexts v)" and "is_primitive (prop_get c ''id'')"
    and "saveContext R iv v d c = (Inr u, v', d')"
  shows "well_keyed (contexts v')"
proof -
  from assms(3) have t: "truthy c" and v': "contexts v' = AList.update (prop_get c ''id'') c (contexts v)"
    by (auto simp: saveContext_def Let_def split: if_splits)
  from t have "prop_read c ''id'' = Inr (prop_get c ''id'')"
    by (cases c) simp_all
  with assms(1,2) show ?thesis
    unfolding v' well_keyed_def
    by (simp add: distinct_update list_all_update)
qed

lemma backup_name_inj: "backup_name a = backup_name b \<Longrightarrow> a = b"
proof -
  assume "backup_name a = backup_name b"
  then have "dec a = dec b"
    by (simp add: backup_name_def)
  then have "undec (dec a) = undec (dec b)"
    by simp
  then show "a = b"
    by (simp add: undec_dec)
qed

text \<open>
  \<open>restore(null)\<close> takes the last name of the listing as it comes. On a runtime that
  lists a directory in its stored order, with the newer snapshot listed before the
  older one, it restores the older snapshot.
\<close>

lemma restore_takes_last_listed:
  assumes "\<not> encryptionEnabled cfg" and "well_keyed (contexts older)" and "a < b"
  shows "restore (ref_runtime\<lparr>readdir_order := (\<lambda>ns. ns)\<rparr>) None (StateVault_new cfg True)
           \<lparr>ctx_dir = [],
             backup_dir =
               [(backup_name b, ref_stringify (backupData b newer)),
                (backup_name a, ref_stringify (backupData a older))]\<rparr>
         = (True, (StateVault_new cfg True)\<lparr>contexts := contexts older\<rparr>)"
proof -
  have each: "restore_each (map snd (contexts older)) [] = (True, contexts older)"
    using restore_each_well_keyed [OF assms(2), of "[]"] by simp
  have ne: "backup_name b \<noteq> backup_name a"
    using assms(3) backup_name_inj [of b a] by auto
  show ?thesis
    using ne assms(1)
    by (simp add: restore_def readdirSync_def endsWith_backup_name Let_def
        ref_stringify_not_Nil ref_parse_stringify each ref_runtime_def
        prop_read_backupData)
qed

end
